theory Spec2Isabelle
  imports Main
begin

section \<open>Data model\<close>

text \<open>
  An index label is an integer or a string (the two kinds of hashable label the
  docstring of \<open>ncon\<close> allows). Labels of different kinds are never equal.
\<close>

datatype label = IntL int | StrL string

text \<open>The exceptions the module and its backend can raise.\<close>

datatype error = ValueError | TypeError | IndexError | KeyError | BackendError

text \<open>
  Tensors are opaque values of type \<open>'a\<close>. What the module reads of a tensor
  (\<open>A.shape\<close>, the optional method \<open>A.compatible_indices\<close>) and the four
  operations it imports from \<open>.backend\<close> are parameters: the backend module is
  not part of the sources, and every backend operation may raise.
  \<open>compatible_indices B A = None\<close> stands for a tensor without that attribute
  (the \<open>AttributeError\<close> branch of \<open>do_check_indices\<close>).
\<close>

record 'a backend =
  shape :: "'a \<Rightarrow> nat list"
  compatible_indices :: "'a \<Rightarrow> ('a \<Rightarrow> nat \<Rightarrow> nat \<Rightarrow> bool) option"
  con :: "'a \<Rightarrow> 'a \<Rightarrow> nat list \<times> nat list \<Rightarrow> error + 'a"
  trace :: "'a \<Rightarrow> nat \<Rightarrow> nat \<Rightarrow> error + 'a"
  permute :: "'a \<Rightarrow> nat list \<Rightarrow> error + 'a"
  expand_dims :: "'a \<Rightarrow> nat \<Rightarrow> error + 'a"

definition rank :: "'a backend \<Rightarrow> 'a \<Rightarrow> nat" where
  "rank B A = length (shape B A)"

text \<open>Python's \<open>xs[i]\<close> for a non-negative position: out of range raises.\<close>

definition py_nth :: "'a list \<Rightarrow> nat \<Rightarrow> error + 'a" where
  "py_nth xs i = (if i < length xs then Inr (xs ! i) else Inl IndexError)"

section \<open>Helpers of the scheduler\<close>

text \<open>
  \<open>get_tcon(v, index)\<close>: the positions of the leg lists that contain the index,
  with the three defensive checks of the source.
\<close>

definition get_tcon :: "label list list \<Rightarrow> label \<Rightarrow> error + nat list" where
  "get_tcon v index =
     (let tcon = filter (\<lambda>i. index \<in> set (v ! i)) [0..<length v];
          l = length tcon
      in if l > 2 then Inl ValueError
         else if l < 1 then Inl ValueError
         else if l = 1 \<and> count_list (v ! (tcon ! 0)) index \<noteq> 2 then Inl ValueError
         else Inr tcon)"

text \<open>
  \<open>find_newv(v, tcon, icon)\<close>: the leg list of the tensor a contraction creates.
  \<open>tcon[0]\<close>, \<open>tcon[1]\<close> and \<open>v[...]\<close> raise when out of range.
\<close>

definition find_newv :: "label list list \<Rightarrow> nat list \<Rightarrow> label list \<Rightarrow> error + label list" where
  "find_newv v tcon icon =
     (case py_nth tcon 0 of Inl e \<Rightarrow> Inl e | Inr t0 \<Rightarrow>
      case py_nth v t0 of Inl e \<Rightarrow> Inl e | Inr v0 \<Rightarrow>
        if length tcon = 2 then
          (case py_nth tcon 1 of Inl e \<Rightarrow> Inl e | Inr t1 \<Rightarrow>
           case py_nth v t1 of Inl e \<Rightarrow> Inl e | Inr v1 \<Rightarrow>
             Inr (filter (\<lambda>i. i \<notin> set icon) (v0 @ v1)))
        else Inr (filter (\<lambda>i. i \<notin> set icon) v0))"

text \<open>\<open>renew_order(order, icon)\<close>.\<close>

definition renew_order :: "label list \<Rightarrow> label list \<Rightarrow> label list" where
  "renew_order order icon = filter (\<lambda>i. i \<notin> set icon) order"

text \<open>
  \<open>list(s)\<close> of a Python set: its elements, each once, in an order that is not
  specified. The order is given by a parameter \<open>listing\<close>, of which nothing is
  assumed (a result that is not a rearrangement of the elements is replaced by
  their order of first occurrence).
\<close>

type_synonym set_order = "label list \<Rightarrow> label list"

definition set_to_list :: "set_order \<Rightarrow> label list \<Rightarrow> label list" where
  "set_to_list listing xs =
     (let ys = remdups xs; zs = listing ys
      in if distinct zs \<and> set zs = set ys then zs else ys)"

lemma distinct_set_to_list [simp]: "distinct (set_to_list listing xs)"
  by (simp add: set_to_list_def Let_def)

lemma set_set_to_list [simp]: "set (set_to_list listing xs) = set xs"
  by (simp add: set_to_list_def Let_def)

text \<open>
  \<open>get_icon(v, tcon)\<close>: the labels the two participants share,
  \<open>list(set(inds1).intersection(inds2))\<close>.
\<close>

definition get_icon :: "set_order \<Rightarrow> label list list \<Rightarrow> nat list \<Rightarrow> error + label list" where
  "get_icon listing v tcon =
     (case py_nth tcon 0 of Inl e \<Rightarrow> Inl e | Inr t0 \<Rightarrow>
      case py_nth v t0 of Inl e \<Rightarrow> Inl e | Inr inds1 \<Rightarrow>
      case py_nth tcon 1 of Inl e \<Rightarrow> Inl e | Inr t1 \<Rightarrow>
      case py_nth v t1 of Inl e \<Rightarrow> Inl e | Inr inds2 \<Rightarrow>
        Inr (set_to_list listing (filter (\<lambda>x. x \<in> set inds2) inds1)))"

text \<open>\<open>get_pos(v, tcon, icon)\<close>: the axis positions of the labels of \<open>icon\<close>.\<close>

definition positions :: "label list \<Rightarrow> label list \<Rightarrow> nat list" where
  "positions inds icon =
     concat (map (\<lambda>e. filter (\<lambda>i. inds ! i = e) [0..<length inds]) icon)"

definition get_pos :: "label list list \<Rightarrow> nat list \<Rightarrow> label list \<Rightarrow> error + nat list \<times> nat list" where
  "get_pos v tcon icon =
     (case py_nth tcon 0 of Inl e \<Rightarrow> Inl e | Inr t0 \<Rightarrow>
      case py_nth v t0 of Inl e \<Rightarrow> Inl e | Inr v0 \<Rightarrow>
        if length tcon < 2 then Inr (positions v0 icon, [])
        else
          (case py_nth tcon 1 of Inl e \<Rightarrow> Inl e | Inr t1 \<Rightarrow>
           case py_nth v t1 of Inl e \<Rightarrow> Inl e | Inr v1 \<Rightarrow>
             Inr (positions v0 icon, positions v1 icon)))"

section \<open>Backend calls\<close>

text \<open>
  A history of the backend operations invoked so far is threaded through every
  function that calls the backend; a raised exception carries the history up to
  the raise.
\<close>

datatype 'a bcall =
    ConCall 'a 'a "nat list" "nat list"
  | TraceCall 'a nat nat
  | PermuteCall 'a "nat list"
  | ExpandCall 'a nat

type_synonym 'a failure = "error \<times> 'a bcall list"

section \<open>Output arranger\<close>

text \<open>Python's \<open>v.index(x)\<close>: the first position of \<open>x\<close>, or \<open>ValueError\<close>.\<close>

fun py_index :: "'b list \<Rightarrow> 'b \<Rightarrow> error + nat" where
  "py_index [] x = Inl ValueError"
| "py_index (y # ys) x =
     (if y = x then Inr 0
      else case py_index ys x of Inl e \<Rightarrow> Inl e | Inr n \<Rightarrow> Inr (Suc n))"

text \<open>The list comprehension \<open>[v.index(i) for i in forder]\<close>.\<close>

fun final_perm :: "label list \<Rightarrow> label list \<Rightarrow> error + nat list" where
  "final_perm v [] = Inr []"
| "final_perm v (i # forder) =
     (case py_index v i of Inl e \<Rightarrow> Inl e | Inr p \<Rightarrow>
      case final_perm v forder of Inl e \<Rightarrow> Inl e | Inr ps \<Rightarrow> Inr (p # ps))"

text \<open>\<open>permute_final(A, v, forder)\<close>, with the calls made so far.\<close>

definition permute_final ::
  "'a backend \<Rightarrow> 'a \<Rightarrow> label list \<Rightarrow> label list \<Rightarrow> 'a bcall list \<Rightarrow> 'a failure + 'a \<times> 'a bcall list"
where
  "permute_final B A v forder cs =
     (case final_perm v forder of
        Inl e \<Rightarrow> Inl (e, cs)
      | Inr perm \<Rightarrow>
          (case permute B A perm of
             Inl e \<Rightarrow> Inl (e, cs @ [PermuteCall A perm])
           | Inr A' \<Rightarrow> Inr (A', cs @ [PermuteCall A perm])))"

section \<open>Defaults of order and forder\<close>

definition is_int :: "label \<Rightarrow> bool" where
  "is_int x = (case x of IntL _ \<Rightarrow> True | StrL _ \<Rightarrow> False)"

text \<open>\<open>indices_are_ints(v)\<close>.\<close>

definition indices_are_ints :: "label list list \<Rightarrow> bool" where
  "indices_are_ints v = list_all (list_all is_int) v"

text \<open>
  The comparisons \<open>i > 0\<close> and \<open>i < 0\<close> of the two default creators raise
  \<open>TypeError\<close> on a string; \<open>int_labels\<close> reads the integers of a list of labels
  and raises at the first string.
\<close>

fun int_labels :: "label list \<Rightarrow> error + int list" where
  "int_labels [] = Inr []"
| "int_labels (IntL i # xs) =
     (case int_labels xs of Inl e \<Rightarrow> Inl e | Inr ns \<Rightarrow> Inr (i # ns))"
| "int_labels (StrL s # xs) = Inl TypeError"

text \<open>
  \<open>create_order(v)\<close> and \<open>create_forder(v)\<close>. \<open>list(set(x))\<close> removes the
  duplicates in an unspecified order, which the sorting that follows makes
  irrelevant; \<open>sorted(x, reverse=True)\<close> of distinct integers is the ascending
  list reversed.
\<close>

definition create_order :: "label list list \<Rightarrow> error + label list" where
  "create_order v =
     (case int_labels (concat v) of
        Inl e \<Rightarrow> Inl e
      | Inr flat_v \<Rightarrow> Inr (map IntL (sort (remdups (filter (\<lambda>i. i > 0) flat_v)))))"

definition create_forder :: "label list list \<Rightarrow> error + label list" where
  "create_forder v =
     (case int_labels (concat v) of
        Inl e \<Rightarrow> Inl e
      | Inr flat_v \<Rightarrow> Inr (map IntL (rev (sort (remdups (filter (\<lambda>i. i < 0) flat_v))))))"

text \<open>
  The \<open>order\<close> and \<open>forder\<close> arguments of \<open>ncon\<close>: omitted (\<open>None\<close>), something
  that is not a non-string iterable, or a sequence of labels.
\<close>

datatype order_arg = Omitted | NotIterable | Given "label list"

text \<open>
  \<open>preprocess_forder_order(arg, v, name)\<close>. For a name other than \<open>"order"\<close> and
  \<open>"forder"\<close> the default creator is \<open>None\<close>, and calling it raises \<open>TypeError\<close>.
\<close>

definition preprocess_forder_order ::
  "order_arg \<Rightarrow> label list list \<Rightarrow> string \<Rightarrow> error + label list" where
  "preprocess_forder_order arg v name =
     (let int_indices = indices_are_ints v in
      case arg of
        Omitted \<Rightarrow>
          if \<not> int_indices then Inl ValueError
          else if name = ''order'' then create_order v
          else if name = ''forder'' then create_forder v
          else Inl TypeError
      | NotIterable \<Rightarrow> Inl ValueError
      | Given xs \<Rightarrow> Inr xs)"

section \<open>Index validator\<close>

text \<open>Check 2: \<open>len(v[i])\<close> against \<open>len(shapes[i])\<close>, in the order of \<open>v\<close>.\<close>

fun check_ranks :: "(label list \<times> nat list) list \<Rightarrow> error + unit" where
  "check_ranks [] = Inr ()"
| "check_ranks ((inds, shp) # rest) =
     (if length inds \<noteq> length shp then Inl ValueError else check_ranks rest)"

text \<open>
  \<open>v_pairs\<close>: every (tensor number, axis) pair, in the order of the flattened
  leg lists \<open>v_sum = sum(v, [])\<close>.
\<close>

definition v_pairs :: "label list list \<Rightarrow> (nat \<times> nat) list" where
  "v_pairs v = concat (map (\<lambda>(i, s). map (\<lambda>j. (i, j)) [0..<length s]) (enumerate 0 v))"

definition order_groups :: "label list list \<Rightarrow> label list \<Rightarrow> (nat \<times> nat) list list" where
  "order_groups v order =
     map (\<lambda>e. map fst (filter (\<lambda>(t, x). x = e) (zip (v_pairs v) (concat v)))) order"

definition forder_groups :: "label list list \<Rightarrow> label list \<Rightarrow> nat list list" where
  "forder_groups v forder =
     map (\<lambda>e. map (\<lambda>fo. 1) (filter (\<lambda>fo. fo = e) (concat v))) forder"

text \<open>
  The messages of checks 3 and 4 format the offending label with \<open>%i\<close>: for an
  integer label the \<open>ValueError\<close> is raised, for a string label the formatting
  raises \<open>TypeError\<close> first.
\<close>

definition index_error :: "label \<Rightarrow> error" where
  "index_error e = (case e of IntL _ \<Rightarrow> ValueError | StrL _ \<Rightarrow> TypeError)"

text \<open>
  The compatibility of two legs \<open>(A0, ind0)\<close> and \<open>(A1, ind1)\<close>: the method
  \<open>compatible_indices\<close> of \<open>L[A0]\<close> when it has one, the equality of the two axis
  sizes otherwise.
\<close>

definition compatible :: "'a backend \<Rightarrow> 'a list \<Rightarrow> nat \<times> nat \<Rightarrow> nat \<times> nat \<Rightarrow> bool" where
  "compatible B L t0 t1 =
     (case t0 of (A0, ind0) \<Rightarrow> case t1 of (A1, ind1) \<Rightarrow>
        (case compatible_indices B (L ! A0) of
           Some p \<Rightarrow> p (L ! A1) ind0 ind1
         | None \<Rightarrow> shape B (L ! A0) ! ind0 = shape B (L ! A1) ! ind1))"

text \<open>The loop over \<open>enumerate(order_groups)\<close>, with \<open>order[i]\<close> beside each group.\<close>

fun check_order_groups ::
  "'a backend \<Rightarrow> 'a list \<Rightarrow> (label \<times> (nat \<times> nat) list) list \<Rightarrow> error + unit" where
  "check_order_groups B L [] = Inr ()"
| "check_order_groups B L ((e, g) # rest) =
     (if length g \<noteq> 2 then Inl (index_error e)
      else if \<not> compatible B L (g ! 0) (g ! 1) then Inl (index_error e)
      else check_order_groups B L rest)"

text \<open>The loop over \<open>enumerate(forder_groups)\<close>.\<close>

fun check_forder_groups :: "(label \<times> nat list) list \<Rightarrow> error + unit" where
  "check_forder_groups [] = Inr ()"
| "check_forder_groups ((e, fo) # rest) =
     (if length fo \<noteq> 1 then Inl (index_error e) else check_forder_groups rest)"

text \<open>
  \<open>do_check_indices(L, v, order, forder)\<close>. The function assigns to local names
  only, so it is a function of its arguments. After checks 1 and 2 every
  \<open>L[A]\<close> and \<open>shape[ind]\<close> of check 4 is in range.
\<close>

definition do_check_indices ::
  "'a backend \<Rightarrow> 'a list \<Rightarrow> label list list \<Rightarrow> label list \<Rightarrow> label list \<Rightarrow> error + bool" where
  "do_check_indices B L v order forder =
     (if length L \<noteq> length v then Inl ValueError
      else case check_ranks (zip v (map (shape B) L)) of Inl e \<Rightarrow> Inl e | Inr _ \<Rightarrow>
           case check_order_groups B L (zip order (order_groups v order)) of
             Inl e \<Rightarrow> Inl e | Inr _ \<Rightarrow>
           case check_forder_groups (zip forder (forder_groups v forder)) of
             Inl e \<Rightarrow> Inl e | Inr _ \<Rightarrow> Inr True)"

section \<open>Network state\<close>

text \<open>
  The mutable triple \<open>(L, v, order)\<close> that \<open>connect_graph\<close> and the loop of
  \<open>ncon\<close> update, with the history of backend calls: \<open>tensors\<close> is \<open>L\<close>, \<open>legs\<close>
  is \<open>v\<close> and \<open>corder\<close> is \<open>order\<close>. In \<open>ncon\<close> every leg list and \<open>order\<close> are
  fresh copies (\<open>list(map(list, v))\<close>, \<open>list(arg)\<close>), so no two of them alias.
\<close>

record 'a state =
  tensors :: "'a list"
  legs :: "label list list"
  corder :: "label list"
  calls :: "'a bcall list"

section \<open>Connectivity repairer\<close>

text \<open>
  Sets of tensor numbers (\<open>unvisited\<close>, \<open>visited\<close>, \<open>to_visit\<close>, a component) are
  lists. \<open>set.pop()\<close> removes and returns an arbitrary element: the element is
  chosen by a parameter \<open>pick\<close>, of which nothing is assumed (a choice outside
  the set is replaced by the first element). \<open>pop\<close> of an empty set is guarded
  by the callers.
\<close>

type_synonym chooser = "nat list \<Rightarrow> nat"

definition set_pop :: "chooser \<Rightarrow> nat list \<Rightarrow> nat \<times> nat list" where
  "set_pop pick xs =
     (let i = (if pick xs \<in> set xs then pick xs else hd xs) in (i, removeAll i xs))"

definition set_add :: "nat \<Rightarrow> nat list \<Rightarrow> nat list" where
  "set_add x xs = (if x \<in> set xs then xs else xs @ [x])"

text \<open>The generator \<open>neighs\<close>: the \<open>j\<close> whose leg list shares a label with \<open>i_inds\<close>.\<close>

definition neighs :: "label list list \<Rightarrow> label list \<Rightarrow> nat list" where
  "neighs v i_inds = filter (\<lambda>j. \<exists>x\<in>set i_inds. x \<in> set (v ! j)) [0..<length v]"

lemma set_set_add [simp]: "set (set_add x xs) = insert x (set xs)"
  by (auto simp: set_add_def)

lemma set_fold_set_add [simp]: "set (fold set_add ys xs) = set ys \<union> set xs"
  by (induction ys arbitrary: xs) auto

lemma set_pop_mem: "xs \<noteq> [] \<Longrightarrow> fst (set_pop pick xs) \<in> set xs"
  by (simp add: set_pop_def Let_def)

lemma set_pop_rest: "snd (set_pop pick xs) = removeAll (fst (set_pop pick xs)) xs"
  by (simp add: set_pop_def Let_def)

text \<open>The inner \<open>while to_visit\<close> loop; \<open>v[i]\<close> raises when out of range.\<close>

function visit_loop ::
  "chooser \<Rightarrow> label list list \<Rightarrow> nat list \<Rightarrow> nat list \<Rightarrow> nat list \<Rightarrow> nat list \<Rightarrow>
   error + nat list \<times> nat list \<times> nat list" where
  "visit_loop pick v to_visit unvisited component visited =
     (if to_visit = [] then Inr (unvisited, component, visited)
      else
        let i = fst (set_pop pick to_visit);
            to_visit1 = snd (set_pop pick to_visit);
            unvisited1 = removeAll i unvisited;
            component1 = set_add i component;
            visited1 = set_add i visited
        in case py_nth v i of
             Inl e \<Rightarrow> Inl e
           | Inr i_inds \<Rightarrow>
               visit_loop pick v
                 (fold set_add (filter (\<lambda>neigh. neigh \<notin> set visited1) (neighs v i_inds)) to_visit1)
                 unvisited1 component1 visited1)"
  by pat_completeness auto
termination
proof (relation "measures [\<lambda>(pick, v, to_visit, unvisited, component, visited).
                              card ({..<length v} - set visited),
                           \<lambda>(pick, v, to_visit, unvisited, component, visited).
                              card (set to_visit \<inter> set visited)]", goal_cases)
  case 1
  then show ?case by simp
next
  case (2 pick v to_visit unvisited component visited i to_visit1 unvisited1 component1 visited1 i_inds)
  have mem: "i \<in> set to_visit" using 2(1,2) set_pop_mem by simp
  have rest: "set to_visit1 = set to_visit - {i}"
    using 2(2,3) by (simp add: set_pop_rest)
  have iv: "i < length v" using 2(7) by (simp add: py_nth_def split: if_splits)
  have vis1: "set visited1 = insert i (set visited)" using 2(6) by simp
  show ?case
  proof (cases "i \<in> set visited")
    case False
    have "{..<length v} - set visited1 \<subset> {..<length v} - set visited"
      using False iv vis1 by auto
    then have "card ({..<length v} - set visited1) < card ({..<length v} - set visited)"
      by (simp add: psubset_card_mono)
    then show ?thesis by simp
  next
    case True
    then have eq: "set visited1 = set visited" using vis1 by auto
    have "set (fold set_add (filter (\<lambda>neigh. neigh \<notin> set visited1) (neighs v i_inds)) to_visit1)
            \<inter> set visited1 \<subset> set to_visit \<inter> set visited"
      using True mem rest eq by auto
    then have "card (set (fold set_add (filter (\<lambda>neigh. neigh \<notin> set visited1) (neighs v i_inds)) to_visit1)
            \<inter> set visited1) < card (set to_visit \<inter> set visited)"
      by (simp add: psubset_card_mono)
    with eq show ?thesis by simp
  qed
qed

declare visit_loop.simps [simp del]

lemma visit_loop_unvisited:
  "visit_loop pick v to_visit unvisited component visited = Inr (u, c, w) \<Longrightarrow>
   length u \<le> length unvisited"
proof (induction pick v to_visit unvisited component visited rule: visit_loop.induct)
  case (1 pick v to_visit unvisited component visited)
  show ?case
  proof (cases "to_visit = []")
    case True
    with "1.prems" show ?thesis by (simp add: visit_loop.simps)
  next
    case False
    let ?i = "fst (set_pop pick to_visit)"
    from "1.prems" False obtain i_inds where nth: "py_nth v ?i = Inr i_inds"
      by (subst (asm) visit_loop.simps) (auto simp: Let_def split: sum.splits)
    with "1.prems" False have rec: "visit_loop pick v
        (fold set_add (filter (\<lambda>neigh. neigh \<notin> set (set_add ?i visited)) (neighs v i_inds))
           (snd (set_pop pick to_visit)))
        (removeAll ?i unvisited) (set_add ?i component) (set_add ?i visited) = Inr (u, c, w)"
      by (subst (asm) visit_loop.simps) (simp add: Let_def)
    from "1.IH" [OF False refl refl refl refl refl nth rec]
    have "length u \<le> length (removeAll ?i unvisited)" .
    also have "\<dots> \<le> length unvisited" by (simp add: removeAll_filter_not_eq)
    finally show ?thesis .
  qed
qed

text \<open>The outer \<open>while unvisited\<close> loop, which collects \<open>ccomponents\<close>.\<close>

function components_loop ::
  "chooser \<Rightarrow> label list list \<Rightarrow> nat list \<Rightarrow> nat list \<Rightarrow> nat list list \<Rightarrow> error + nat list list" where
  "components_loop pick v unvisited visited ccomponents =
     (if unvisited = [] then Inr ccomponents
      else
        let next_visit = fst (set_pop pick unvisited);
            unvisited1 = snd (set_pop pick unvisited)
        in case visit_loop pick v [next_visit] unvisited1 [] visited of
             Inl e \<Rightarrow> Inl e
           | Inr (unvisited2, component, visited2) \<Rightarrow>
               components_loop pick v unvisited2 visited2 (ccomponents @ [component]))"
  by pat_completeness auto
termination
proof (relation "measure (\<lambda>(pick, v, unvisited, visited, ccomponents). length unvisited)", goal_cases)
  case 1
  then show ?case by simp
next
  case (2 pick v unvisited visited ccomponents next_visit unvisited1 r unvisited2 rest component visited2)
  have "length unvisited2 \<le> length unvisited1"
    using 2(4,5,6) visit_loop_unvisited by metis
  also have "length unvisited1 < length unvisited"
    using 2(1,3) set_pop_mem [of unvisited pick]
    by (simp add: set_pop_rest length_removeAll_less)
  finally show ?case by simp
qed

declare components_loop.simps [simp del]

text \<open>\<open>dim_num = 1; while dim_num in order: dim_num += 1\<close>, from \<open>n\<close> on.\<close>

function fresh_dim :: "label list \<Rightarrow> int \<Rightarrow> int" where
  "fresh_dim ord n = (if IntL n \<in> set ord then fresh_dim ord (n + 1) else n)"
  by pat_completeness auto
termination
proof (relation "measure (\<lambda>(ord, n). length (filter (\<lambda>x. \<exists>m\<ge>n. x = IntL m) ord))", goal_cases)
  case 1
  then show ?case by simp
next
  case (2 ord n)
  let ?P = "\<lambda>x. \<exists>m\<ge>n. x = IntL m"
  let ?Q = "\<lambda>x. \<exists>m\<ge>n + 1. x = IntL m"
  have "filter ?Q ord = filter ?Q (filter ?P ord)"
    by (simp, rule filter_cong) auto
  moreover have "IntL n \<in> set (filter ?P ord)" using 2 by simp
  moreover have "\<not> ?Q (IntL n)" by simp
  ultimately have "length (filter ?Q ord) < length (filter ?P ord)"
    using length_filter_less [of "IntL n" "filter ?P ord" ?Q] by simp
  then show ?case by simp
qed

declare fresh_dim.simps [simp del]

text \<open>
  The body of the linking loop of \<open>connect_graph\<close> for the tensors \<open>c\<close> and \<open>d\<close>.
\<close>

definition link :: "'a backend \<Rightarrow> nat \<Rightarrow> nat \<Rightarrow> 'a state \<Rightarrow> 'a failure + 'a state" where
  "link B c d s =
     (case py_nth (tensors s) c of Inl e \<Rightarrow> Inl (e, calls s) | Inr A_c \<Rightarrow>
      case py_nth (tensors s) d of Inl e \<Rightarrow> Inl (e, calls s) | Inr A_d \<Rightarrow>
      case py_nth (legs s) c of Inl e \<Rightarrow> Inl (e, calls s) | Inr v_c \<Rightarrow>
      case py_nth (legs s) d of Inl e \<Rightarrow> Inl (e, calls s) | Inr v_d \<Rightarrow>
        let c_axis = length v_c;
            d_axis = length v_d;
            calls1 = calls s @ [ExpandCall A_c c_axis]
        in case expand_dims B A_c c_axis of Inl e \<Rightarrow> Inl (e, calls1) | Inr A_c' \<Rightarrow>
        let calls2 = calls1 @ [ExpandCall A_d d_axis]
        in case expand_dims B A_d d_axis of Inl e \<Rightarrow> Inl (e, calls2) | Inr A_d' \<Rightarrow>
        let L1 = (tensors s)[c := A_c'];
            L2 = L1[d := A_d'];
            dim_num = fresh_dim (corder s) 1;
            v1 = (legs s)[c := legs s ! c @ [IntL dim_num]];
            v2 = v1[d := v1 ! d @ [IntL dim_num]]
        in Inr (s\<lparr>tensors := L2, legs := v2, corder := corder s @ [IntL dim_num],
                  calls := calls2\<rparr>))"

text \<open>
  \<open>while ccomponents: d = ccomponents.pop().pop(); ...\<close> over the components
  still to link, the next one to pop first.
\<close>

fun link_loop ::
  "'a backend \<Rightarrow> chooser \<Rightarrow> nat \<Rightarrow> nat list list \<Rightarrow> 'a state \<Rightarrow> 'a failure + 'a state" where
  "link_loop B pick c [] s = Inr s"
| "link_loop B pick c (component # rest) s =
     (if component = [] then Inl (KeyError, calls s)
      else case link B c (fst (set_pop pick component)) s of
             Inl f \<Rightarrow> Inl f
           | Inr s' \<Rightarrow> link_loop B pick c rest s')"

text \<open>
  \<open>connect_graph(L, v, order)\<close>. \<open>ccomponents.pop()\<close> takes the last component
  and raises \<open>IndexError\<close> on an empty list.
\<close>

definition connect_graph :: "'a backend \<Rightarrow> chooser \<Rightarrow> 'a state \<Rightarrow> 'a failure + 'a state" where
  "connect_graph B pick s =
     (case components_loop pick (legs s) [0..<length (tensors s)] [] [] of
        Inl e \<Rightarrow> Inl (e, calls s)
      | Inr ccomponents \<Rightarrow>
          if ccomponents = [] then Inl (IndexError, calls s)
          else if last ccomponents = [] then Inl (KeyError, calls s)
          else link_loop B pick (fst (set_pop pick (last ccomponents)))
                 (rev (butlast ccomponents)) s)"

section \<open>Contraction scheduler\<close>

text \<open>\<open>del xs[i]\<close>.\<close>

definition py_del :: "'b list \<Rightarrow> nat \<Rightarrow> error + 'b list" where
  "py_del xs i = (if i < length xs then Inr (take i xs @ drop (Suc i) xs) else Inl IndexError)"

text \<open>\<open>for i in ...: del L[i]; del v[i]\<close>.\<close>

fun delete_all ::
  "nat list \<Rightarrow> 'a list \<Rightarrow> label list list \<Rightarrow> error + 'a list \<times> label list list" where
  "delete_all [] L v = Inr (L, v)"
| "delete_all (i # rest) L v =
     (case py_del L i of Inl e \<Rightarrow> Inl e | Inr L' \<Rightarrow>
      case py_del v i of Inl e \<Rightarrow> Inl e | Inr v' \<Rightarrow> delete_all rest L' v')"

text \<open>The backend call of one iteration: a trace, or a pairwise contraction.\<close>

definition contract ::
  "'a backend \<Rightarrow> 'a list \<Rightarrow> nat list \<Rightarrow> bool \<Rightarrow> nat list \<Rightarrow> nat list \<Rightarrow> 'a bcall list \<Rightarrow>
   'a failure + 'a \<times> 'a bcall list" where
  "contract B L tcon tracing pos1 pos2 cs =
     (case py_nth tcon 0 of Inl e \<Rightarrow> Inl (e, cs) | Inr t0 \<Rightarrow>
      case py_nth L t0 of Inl e \<Rightarrow> Inl (e, cs) | Inr A0 \<Rightarrow>
        if tracing then
          (case py_nth pos1 0 of Inl e \<Rightarrow> Inl (e, cs) | Inr axis1 \<Rightarrow>
           case py_nth pos1 1 of Inl e \<Rightarrow> Inl (e, cs) | Inr axis2 \<Rightarrow>
           case trace B A0 axis1 axis2 of
             Inl e \<Rightarrow> Inl (e, cs @ [TraceCall A0 axis1 axis2])
           | Inr new_A \<Rightarrow> Inr (new_A, cs @ [TraceCall A0 axis1 axis2]))
        else
          (case py_nth tcon 1 of Inl e \<Rightarrow> Inl (e, cs) | Inr t1 \<Rightarrow>
           case py_nth L t1 of Inl e \<Rightarrow> Inl (e, cs) | Inr A1 \<Rightarrow>
           case con B A0 A1 (pos1, pos2) of
             Inl e \<Rightarrow> Inl (e, cs @ [ConCall A0 A1 pos1 pos2])
           | Inr new_A \<Rightarrow> Inr (new_A, cs @ [ConCall A0 A1 pos1 pos2])))"

text \<open>One iteration of the \<open>while\<close> loop of \<open>ncon\<close>, for \<open>order[0] = idx\<close>.\<close>

definition iteration ::
  "'a backend \<Rightarrow> set_order \<Rightarrow> 'a state \<Rightarrow> label \<Rightarrow> 'a failure + 'a state" where
  "iteration B listing s idx =
     (case get_tcon (legs s) idx of Inl e \<Rightarrow> Inl (e, calls s) | Inr tcon \<Rightarrow>
      let tracing = (length tcon = 1) in
      case (if tracing then Inr [idx] else get_icon listing (legs s) tcon) of
        Inl e \<Rightarrow> Inl (e, calls s) | Inr icon \<Rightarrow>
      case get_pos (legs s) tcon icon of Inl e \<Rightarrow> Inl (e, calls s) | Inr (pos1, pos2) \<Rightarrow>
      case contract B (tensors s) tcon tracing pos1 pos2 (calls s) of
        Inl f \<Rightarrow> Inl f | Inr (new_A, cs) \<Rightarrow>
      case find_newv (legs s) tcon icon of Inl e \<Rightarrow> Inl (e, cs) | Inr newv \<Rightarrow>
      case delete_all (rev (sort tcon)) (tensors s @ [new_A]) (legs s @ [newv]) of
        Inl e \<Rightarrow> Inl (e, cs)
      | Inr (L', v') \<Rightarrow>
          Inr \<lparr>tensors = L', legs = v', corder = renew_order (corder s) icon, calls = cs\<rparr>)"

lemma get_tcon_mem:
  assumes "get_tcon v idx = Inr tcon"
  shows "tcon = filter (\<lambda>i. idx \<in> set (v ! i)) [0..<length v]"
    and "length tcon = 1 \<or> length tcon = 2"
proof -
  define t where "t = filter (\<lambda>i. idx \<in> set (v ! i)) [0..<length v]"
  from assms have r: "tcon = t \<and> \<not> 2 < length t \<and> \<not> length t < 1"
    unfolding get_tcon_def Let_def t_def [symmetric] by (simp split: if_splits)
  then show "tcon = filter (\<lambda>i. idx \<in> set (v ! i)) [0..<length v]"
    by (simp add: t_def)
  from r have "length tcon \<le> 2" "0 < length tcon" by auto
  then show "length tcon = 1 \<or> length tcon = 2" by arith
qed

lemma length_two: "length xs = 2 \<Longrightarrow> \<exists>a b. xs = [a, b]"
  by (cases xs; cases "tl xs") auto

lemma length_one: "length xs = 1 \<Longrightarrow> \<exists>a. xs = [a]"
  by (cases xs) auto

lemma get_tcon_set:
  assumes "get_tcon v idx = Inr tcon"
  shows "set tcon = {i. i < length v \<and> idx \<in> set (v ! i)}"
proof -
  have "set (filter (\<lambda>i. idx \<in> set (v ! i)) [0..<length v]) = {i. i < length v \<and> idx \<in> set (v ! i)}"
    by auto
  with get_tcon_mem(1) [OF assms] show ?thesis by simp
qed

lemma get_icon_mem:
  assumes "get_tcon v idx = Inr tcon" "length tcon \<noteq> 1" "get_icon listing v tcon = Inr icon"
  shows "idx \<in> set icon"
proof -
  from get_tcon_mem(2) [OF assms(1)] assms(2) have "length tcon = 2" by simp
  then obtain a b where ab: "tcon = [a, b]" using length_two by blast
  have "a \<in> set tcon" "b \<in> set tcon" using ab by simp_all
  then have m: "a < length v" "idx \<in> set (v ! a)" "b < length v" "idx \<in> set (v ! b)"
    unfolding get_tcon_set [OF assms(1)] by simp_all
  from assms(3) have "icon = set_to_list listing (filter (\<lambda>x. x \<in> set (v ! b)) (v ! a))"
    using m(1,3) by (simp add: get_icon_def py_nth_def ab)
  with m show ?thesis by simp
qed

lemma iteration_icon:
  assumes "iteration B listing s idx = Inr s'"
  shows "\<exists>icon. idx \<in> set icon \<and> corder s' = renew_order (corder s) icon"
proof -
  from assms obtain tcon where tcon: "get_tcon (legs s) idx = Inr tcon"
    by (cases "get_tcon (legs s) idx") (simp_all add: iteration_def)
  from assms tcon obtain icon where
    icon: "(if length tcon = 1 then Inr [idx] else get_icon listing (legs s) tcon) = Inr icon"
    by (cases "if length tcon = 1 then Inr [idx] else get_icon listing (legs s) tcon")
       (simp_all add: iteration_def Let_def)
  have mem: "idx \<in> set icon"
  proof (cases "length tcon = 1")
    case True
    with icon show ?thesis by auto
  next
    case False
    with icon have "get_icon listing (legs s) tcon = Inr icon" by simp
    from get_icon_mem [OF tcon False this] show ?thesis .
  qed
  from assms tcon icon have "corder s' = renew_order (corder s) icon"
    unfolding iteration_def Let_def
    by (simp split: sum.splits prod.splits) auto
  with mem show ?thesis by blast
qed

lemma iteration_shrinks:
  assumes "iteration B listing s idx = Inr s'" "idx \<in> set (corder s)"
  shows "length (corder s') < length (corder s)"
proof -
  from iteration_icon [OF assms(1)] obtain icon where
    "idx \<in> set icon" "corder s' = renew_order (corder s) icon" by blast
  with assms(2) show ?thesis
    by (simp add: renew_order_def length_filter_less)
qed

text \<open>The \<open>while len(order) > 0\<close> loop.\<close>

function ncon_loop :: "'a backend \<Rightarrow> set_order \<Rightarrow> 'a state \<Rightarrow> 'a failure + 'a state" where
  "ncon_loop B listing s =
     (case corder s of
        [] \<Rightarrow> Inr s
      | idx # _ \<Rightarrow>
          (case iteration B listing s idx of
             Inl f \<Rightarrow> Inl f
           | Inr s' \<Rightarrow> ncon_loop B listing s'))"
  by pat_completeness auto
termination
proof (relation "measure (\<lambda>(B, listing, s). length (corder s))", goal_cases)
  case 1
  then show ?case by simp
next
  case (2 B listing s idx rest s')
  then show ?case using iteration_shrinks [of B listing s idx s'] by simp
qed

declare ncon_loop.simps [simp del]


section \<open>Entry point\<close>

text \<open>
  The first argument of \<open>ncon\<close>: one tensor (an object with a \<open>shape\<close>), or an
  iterable of tensors.
\<close>

datatype 'a tensors_arg = OneTensor 'a | TensorList "'a list"

definition preprocess_tensors :: "'a tensors_arg \<Rightarrow> 'a list" where
  "preprocess_tensors L = (case L of OneTensor A \<Rightarrow> [A] | TensorList As \<Rightarrow> As)"

text \<open>
  The second argument: not a non-string iterable, a flat sequence of labels, or
  a sequence of leg lists. \<open>v[0]\<close> raises on an empty sequence.
\<close>

datatype indices_arg = NoIndices | FlatIndices "label list" | NestedIndices "label list list"

definition preprocess_indices :: "indices_arg \<Rightarrow> error + label list list" where
  "preprocess_indices v =
     (case v of
        NoIndices \<Rightarrow> Inl ValueError
      | FlatIndices xs \<Rightarrow> if xs = [] then Inl IndexError else Inr [xs]
      | NestedIndices vs \<Rightarrow> if vs = [] then Inl IndexError else Inr vs)"

text \<open>\<open>ncon(L, v, order, forder, check_indices)\<close>.\<close>

definition ncon ::
  "'a backend \<Rightarrow> chooser \<Rightarrow> set_order \<Rightarrow> 'a tensors_arg \<Rightarrow> indices_arg \<Rightarrow> order_arg \<Rightarrow>
   order_arg \<Rightarrow> bool \<Rightarrow> 'a failure + 'a \<times> 'a bcall list" where
  "ncon B pick listing L_arg v_arg order_arg forder_arg check_indices =
     (let L = preprocess_tensors L_arg in
      case preprocess_indices v_arg of Inl e \<Rightarrow> Inl (e, []) | Inr v \<Rightarrow>
      case preprocess_forder_order order_arg v ''order'' of Inl e \<Rightarrow> Inl (e, []) | Inr ord \<Rightarrow>
      case preprocess_forder_order forder_arg v ''forder'' of Inl e \<Rightarrow> Inl (e, []) | Inr forder \<Rightarrow>
      case (if check_indices then do_check_indices B L v ord forder else Inr True) of
        Inl e \<Rightarrow> Inl (e, []) | Inr _ \<Rightarrow>
      case connect_graph B pick \<lparr>tensors = L, legs = v, corder = ord, calls = []\<rparr> of
        Inl f \<Rightarrow> Inl f | Inr s1 \<Rightarrow>
      case ncon_loop B listing s1 of Inl f \<Rightarrow> Inl f | Inr s2 \<Rightarrow>
      case py_nth (legs s2) 0 of Inl e \<Rightarrow> Inl (e, calls s2) | Inr vlast \<Rightarrow>
      case py_nth (tensors s2) 0 of Inl e \<Rightarrow> Inl (e, calls s2) | Inr A \<Rightarrow>
        permute_final B A vlast forder (calls s2))"

section \<open>A backend on shapes\<close>

text \<open>
  Modelled from the spec: the backend module (\<open>con\<close>, \<open>trace\<close>, \<open>permute\<close>,
  \<open>expand_dims\<close>) is missing from the sources. This instance follows the
  contracts of the specification's backend interface on tensors reduced to their
  shapes: an operation raises outside its stated precondition, and otherwise
  returns the shape the contract gives. Its tensors have no
  \<open>compatible_indices\<close> attribute. It is used for concrete runs only; the
  theorems hold for every backend.
\<close>

definition remove_axes :: "nat list \<Rightarrow> nat list \<Rightarrow> nat list" where
  "remove_axes A ps = map (\<lambda>i. A ! i) (filter (\<lambda>i. i \<notin> set ps) [0..<length A])"

definition shape_con :: "nat list \<Rightarrow> nat list \<Rightarrow> nat list \<times> nat list \<Rightarrow> error + nat list" where
  "shape_con A A' ps =
     (case ps of (p1, p2) \<Rightarrow>
        if length p1 = length p2 \<and> distinct p1 \<and> distinct p2 \<and>
           list_all (\<lambda>i. i < length A) p1 \<and> list_all (\<lambda>i. i < length A') p2 \<and>
           map (\<lambda>i. A ! i) p1 = map (\<lambda>i. A' ! i) p2
        then Inr (remove_axes A p1 @ remove_axes A' p2)
        else Inl BackendError)"

definition shape_trace :: "nat list \<Rightarrow> nat \<Rightarrow> nat \<Rightarrow> error + nat list" where
  "shape_trace A i j =
     (if i < length A \<and> j < length A \<and> i \<noteq> j \<and> A ! i = A ! j
      then Inr (remove_axes A [i, j]) else Inl BackendError)"

definition shape_permute :: "nat list \<Rightarrow> nat list \<Rightarrow> error + nat list" where
  "shape_permute A perm =
     (if sort perm = [0..<length A] then Inr (map (\<lambda>k. A ! k) perm) else Inl BackendError)"

definition shape_expand_dims :: "nat list \<Rightarrow> nat \<Rightarrow> error + nat list" where
  "shape_expand_dims A ax = (if ax = length A then Inr (A @ [1]) else Inl BackendError)"

definition shape_backend :: "nat list backend" where
  "shape_backend =
     \<lparr> shape = (\<lambda>A. A), compatible_indices = (\<lambda>A. None), con = shape_con,
       trace = shape_trace, permute = shape_permute, expand_dims = shape_expand_dims \<rparr>"

section \<open>Notions of the specification\<close>

text \<open>The integers that occur as labels in the leg lists.\<close>

definition label_values :: "label list list \<Rightarrow> int set" where
  "label_values v = {i. IntL i \<in> set (concat v)}"

text \<open>The positions of the leg lists that contain a label.\<close>

definition holders :: "label list list \<Rightarrow> label \<Rightarrow> nat set" where
  "holders v x = {i. i < length v \<and> x \<in> set (v ! i)}"

text \<open>The number of legs, over all leg lists, that carry a label.\<close>

definition occurrences :: "label list list \<Rightarrow> label \<Rightarrow> nat" where
  "occurrences v e = count_list (concat v) e"

text \<open>Leg \<open>t = (tensor number, axis)\<close> exists and carries the label \<open>e\<close>.\<close>

definition leg_at :: "label list list \<Rightarrow> nat \<times> nat \<Rightarrow> label \<Rightarrow> bool" where
  "leg_at v t e \<longleftrightarrow> fst t < length v \<and> snd t < length (v ! fst t) \<and> v ! fst t ! snd t = e"

text \<open>Leg \<open>t0\<close> comes before leg \<open>t1\<close> in the flattened leg lists.\<close>

definition leg_before :: "nat \<times> nat \<Rightarrow> nat \<times> nat \<Rightarrow> bool" where
  "leg_before t0 t1 \<longleftrightarrow> fst t0 < fst t1 \<or> (fst t0 = fst t1 \<and> snd t0 < snd t1)"

text \<open>
  The malformed-input classes of the validator, in the words of the
  specification: the lengths of \<open>L\<close> and \<open>v\<close> differ; some leg list has not the
  length of its tensor's rank; some index of \<open>order\<close> does not occur exactly
  twice; the two legs that carry some index of \<open>order\<close> are incompatible; some
  index of \<open>forder\<close> does not occur exactly once.
\<close>

definition malformed ::
  "'a backend \<Rightarrow> 'a list \<Rightarrow> label list list \<Rightarrow> label list \<Rightarrow> label list \<Rightarrow> bool" where
  "malformed B L v order forder \<longleftrightarrow>
     length L \<noteq> length v \<or>
     (\<exists>i<length v. length (v ! i) \<noteq> rank B (L ! i)) \<or>
     (\<exists>e\<in>set order. occurrences v e \<noteq> 2) \<or>
     (\<exists>e\<in>set order. \<exists>t0 t1. leg_at v t0 e \<and> leg_at v t1 e \<and> leg_before t0 t1 \<and>
                                \<not> compatible B L t0 t1) \<or>
     (\<exists>e\<in>set forder. occurrences v e \<noteq> 1)"

text \<open>
  The legs that carry \<open>e\<close>, in the order of the flattened leg lists, with the
  tensors numbered from \<open>n\<close> on: what one entry of \<open>order_groups\<close> holds.
\<close>

primrec legs_from :: "nat \<Rightarrow> label list list \<Rightarrow> label \<Rightarrow> (nat \<times> nat) list" where
  "legs_from n [] e = []"
| "legs_from n (s # v) e =
     map (\<lambda>j. (n, j)) (filter (\<lambda>j. s ! j = e) [0..<length s]) @ legs_from (Suc n) v e"

text \<open>
  The invariant of the network state: as many leg lists as tensors, and each leg
  list as long as the rank of its tensor.
\<close>

definition network_inv :: "'a backend \<Rightarrow> 'a state \<Rightarrow> bool" where
  "network_inv B s \<longleftrightarrow>
     length (tensors s) = length (legs s) \<and>
     (\<forall>i<length (legs s). length (legs s ! i) = rank B (tensors s ! i))"

text \<open>
  The contracts of the backend that the invariant relies on, for a call that
  returns: a pairwise contraction was given two axis lists of the same length
  and removes them from the ranks; a trace removes two axes; an axis insertion
  adds one.
\<close>

definition backend_contract :: "'a backend \<Rightarrow> bool" where
  "backend_contract B \<longleftrightarrow>
     (\<forall>A A' p1 p2 C. con B A A' (p1, p2) = Inr C \<longrightarrow>
        length p1 = length p2 \<and> rank B C + 2 * length p1 = rank B A + rank B A') \<and>
     (\<forall>A i j C. trace B A i j = Inr C \<longrightarrow> rank B C + 2 = rank B A) \<and>
     (\<forall>A ax C. expand_dims B A ax = Inr C \<longrightarrow> rank B C = rank B A + 1)"

text \<open>
  The tensor graph: the vertices are the positions of the leg lists, and two are
  adjacent when their leg lists share a label. The graph is connected when every
  vertex is reachable from every other.
\<close>

definition adjacent :: "label list list \<Rightarrow> nat \<Rightarrow> nat \<Rightarrow> bool" where
  "adjacent v i j \<longleftrightarrow> i < length v \<and> j < length v \<and> set (v ! i) \<inter> set (v ! j) \<noteq> {}"

definition connected :: "label list list \<Rightarrow> bool" where
  "connected v \<longleftrightarrow> (\<forall>i<length v. \<forall>j<length v. rtranclp (adjacent v) i j)"

text \<open>
  One insertion of a synthetic label, in the words of the specification: for two
  different tensors \<open>c\<close> and \<open>d\<close>, the backend's axis insertion is applied to
  both at the end of their leg lists, the smallest positive integer \<open>k\<close> not
  present in \<open>order\<close> is appended to both leg lists and to \<open>order\<close>.
\<close>

inductive repair_step :: "'a backend \<Rightarrow> 'a state \<Rightarrow> 'a state \<Rightarrow> bool" for B :: "'a backend" where
  "c < length (tensors s) \<Longrightarrow> d < length (tensors s) \<Longrightarrow>
   c < length (legs s) \<Longrightarrow> d < length (legs s) \<Longrightarrow> c \<noteq> d \<Longrightarrow>
   expand_dims B (tensors s ! c) (length (legs s ! c)) = Inr A_c \<Longrightarrow>
   expand_dims B (tensors s ! d) (length (legs s ! d)) = Inr A_d \<Longrightarrow>
   0 < k \<Longrightarrow> IntL k \<notin> set (corder s) \<Longrightarrow> (\<forall>m. 0 < m \<and> m < k \<longrightarrow> IntL m \<in> set (corder s)) \<Longrightarrow>
   repair_step B s
     (s\<lparr>tensors := (tensors s)[c := A_c, d := A_d],
        legs := (legs s)[c := legs s ! c @ [IntL k], d := legs s ! d @ [IntL k]],
        corder := corder s @ [IntL k],
        calls := calls s @ [ExpandCall (tensors s ! c) (length (legs s ! c)),
                            ExpandCall (tensors s ! d) (length (legs s ! d))]\<rparr>)"

text \<open>
  The number of leg lists that carry a label, and the networks in which every
  label is carried by at most two leg lists and a label carried by two is listed
  in \<open>order\<close>.
\<close>

definition holder_count :: "label list list \<Rightarrow> label \<Rightarrow> nat" where
  "holder_count v x = length (filter (\<lambda>inds. x \<in> set inds) v)"

definition covered :: "label list list \<Rightarrow> label list \<Rightarrow> bool" where
  "covered v ord \<longleftrightarrow>
     (\<forall>x\<in>set (concat v). holder_count v x \<le> 2 \<and> (holder_count v x = 2 \<longrightarrow> x \<in> set ord))"

section \<open>Auxiliary notions of the proofs\<close>

text \<open>The invariant as a relation between the two lists.\<close>

definition aligned :: "'a backend \<Rightarrow> label list list \<Rightarrow> 'a list \<Rightarrow> bool" where
  "aligned B v L = list_all2 (\<lambda>inds A. length inds = rank B A) v L"

text \<open>The leg lists \<open>v'\<close> are those of \<open>v\<close>, each with labels added.\<close>

definition extends :: "label list list \<Rightarrow> label list list \<Rightarrow> bool" where
  "extends v v' \<longleftrightarrow> length v' = length v \<and> (\<forall>i<length v. set (v ! i) \<subseteq> set (v' ! i))"

text \<open>
  A list of components, each new one disjoint from the positions in \<open>S\<close> and
  from the components before it.
\<close>

fun fresh_chain :: "nat set \<Rightarrow> nat list list \<Rightarrow> bool" where
  "fresh_chain S [] = True"
| "fresh_chain S (K # Ks) = (set K \<inter> S = {} \<and> fresh_chain (S \<union> set K) Ks)"

text \<open>A component: not empty, within range, all of it reachable from one position.\<close>

definition component_ok :: "label list list \<Rightarrow> nat list \<Rightarrow> bool" where
  "component_ok v K \<longleftrightarrow>
     K \<noteq> [] \<and> (\<forall>x\<in>set K. x < length v) \<and> (\<exists>r. \<forall>x\<in>set K. rtranclp (adjacent v) r x)"

text \<open>
  What the loop keeps: a connected, non-empty network in which every label is
  carried by at most two leg lists and a label carried by two is listed in
  \<open>order\<close>.
\<close>

definition schedulable :: "label list list \<Rightarrow> label list \<Rightarrow> bool" where
  "schedulable v ord \<longleftrightarrow>
     v \<noteq> [] \<and> connected v \<and> (\<forall>x. card (holders v x) \<le> 2) \<and>
     (\<forall>x. card (holders v x) = 2 \<longrightarrow> x \<in> set ord)"

section \<open>Example networks\<close>

text \<open>
  Three tensors without a common label, on the shape backend: before the repair,
  after it, after the first iteration of the loop, and at its exit.
\<close>

definition net_apart :: "nat list state" where
  "net_apart =
     \<lparr>tensors = [[2, 3], [4, 5], [6]],
      legs = [[IntL (-1), IntL (-2)], [IntL (-3), IntL (-4)], [IntL (-5)]],
      corder = [], calls = []\<rparr>"

definition net_linked :: "nat list state" where
  "net_linked =
     \<lparr>tensors = [[2, 3, 1], [4, 5, 1], [6, 1, 1]],
      legs = [[IntL (-1), IntL (-2), IntL 2], [IntL (-3), IntL (-4), IntL 1],
              [IntL (-5), IntL 1, IntL 2]],
      corder = [IntL 1, IntL 2],
      calls = [ExpandCall [6] 1, ExpandCall [4, 5] 2, ExpandCall [6, 1] 2, ExpandCall [2, 3] 2]\<rparr>"

definition net_step :: "nat list state" where
  "net_step =
     \<lparr>tensors = [[2, 3, 1], [4, 5, 6, 1]],
      legs = [[IntL (-1), IntL (-2), IntL 2], [IntL (-3), IntL (-4), IntL (-5), IntL 2]],
      corder = [IntL 2],
      calls = [ExpandCall [6] 1, ExpandCall [4, 5] 2, ExpandCall [6, 1] 2, ExpandCall [2, 3] 2,
               ConCall [4, 5, 1] [6, 1, 1] [2] [1]]\<rparr>"

definition net_done :: "nat list state" where
  "net_done =
     \<lparr>tensors = [[2, 3, 4, 5, 6]],
      legs = [[IntL (-1), IntL (-2), IntL (-3), IntL (-4), IntL (-5)]],
      corder = [],
      calls = [ExpandCall [6] 1, ExpandCall [4, 5] 2, ExpandCall [6, 1] 2, ExpandCall [2, 3] 2,
               ConCall [4, 5, 1] [6, 1, 1] [2] [1], ConCall [2, 3, 1] [4, 5, 6, 1] [2] [3]]\<rparr>"

section \<open>Theorems\<close>

subsection \<open>Leg list of a new tensor\<close>

text \<open>
  C5. The leg list computed by \<open>find_newv\<close>: for two participants \<open>a\<close>, \<open>b\<close> it
  is the leg list of \<open>a\<close> followed by the leg list of \<open>b\<close>, with every label of
  \<open>icon\<close> removed and the surviving labels in their relative order (so the
  survivors of \<open>a\<close> come before those of \<open>b\<close>); for a self-trace of \<open>a\<close> it is
  the leg list of \<open>a\<close> with every label of \<open>icon\<close> removed.
\<close>

theorem find_newv_legs:
  "(a < length v \<and> b < length v \<longrightarrow>
      find_newv v [a, b] icon = Inr (filter (\<lambda>x. x \<notin> set icon) (v ! a @ v ! b)) \<and>
      find_newv v [a, b] icon =
        Inr (filter (\<lambda>x. x \<notin> set icon) (v ! a) @ filter (\<lambda>x. x \<notin> set icon) (v ! b))) \<and>
   (a < length v \<longrightarrow>
      find_newv v [a] icon = Inr (filter (\<lambda>x. x \<notin> set icon) (v ! a)))"
  by (simp add: find_newv_def py_nth_def)

theorem find_newv_legs_witness:
  "find_newv [[IntL 1, IntL (-1), IntL 2], [IntL 2, IntL (-2), IntL 1]] [0, 1] [IntL 2, IntL 1]
     = Inr [IntL (-1), IntL (-2)] \<and>
   find_newv [[IntL 1, IntL (-1), IntL 1]] [0] [IntL 1] = Inr [IntL (-1)]"
  using find_newv_legs [of 0 "[[IntL 1, IntL (-1), IntL 2], [IntL 2, IntL (-2), IntL 1]]" 1
      "[IntL 2, IntL 1]"]
    find_newv_legs [of 0 "[[IntL 1, IntL (-1), IntL 1]]" 0 "[IntL 1]"]
  by simp

subsection \<open>Defaults\<close>

lemma int_labels_Inr:
  "list_all is_int xs \<Longrightarrow> \<exists>ns. int_labels xs = Inr ns \<and> map IntL ns = xs"
  by (induction xs rule: int_labels.induct) (auto simp: is_int_def)

lemma int_labels_all:
  "indices_are_ints v \<Longrightarrow> \<exists>ns. int_labels (concat v) = Inr ns \<and> map IntL ns = concat v"
  by (rule int_labels_Inr) (auto simp: indices_are_ints_def list_all_iff)

lemma set_map_IntL: "map IntL ns = xs \<Longrightarrow> set ns = {i. IntL i \<in> set xs}"
  by auto

lemma sorted_wrt_less_sort_remdups: "sorted_wrt (<) (sort (remdups (xs :: int list)))"
  by (simp add: strict_sorted_iff)

lemma sorted_wrt_greater_rev: "sorted_wrt (>) (rev (sort (remdups (xs :: int list))))"
  using sorted_wrt_less_sort_remdups [of xs] by (simp add: sorted_wrt_rev)

lemma default_order_sorted:
  assumes "indices_are_ints v"
  shows "\<exists>xs. preprocess_forder_order Omitted v ''order'' = Inr (map IntL xs) \<and>
            sorted_wrt (<) xs \<and> set xs = {i \<in> label_values v. i > 0}"
    and "\<exists>ys. preprocess_forder_order Omitted v ''forder'' = Inr (map IntL ys) \<and>
            sorted_wrt (>) ys \<and> set ys = {i \<in> label_values v. i < 0}"
proof -
  from assms obtain ns where ns: "int_labels (concat v) = Inr ns" "map IntL ns = concat v"
    using int_labels_all by blast
  have sns: "set ns = label_values v"
    using set_map_IntL [OF ns(2)] by (simp add: label_values_def)
  show "\<exists>xs. preprocess_forder_order Omitted v ''order'' = Inr (map IntL xs) \<and>
            sorted_wrt (<) xs \<and> set xs = {i \<in> label_values v. i > 0}"
    using assms ns(1) sns sorted_wrt_less_sort_remdups
    by (intro exI [of _ "sort (remdups (filter (\<lambda>i. i > 0) ns))"])
       (auto simp: preprocess_forder_order_def create_order_def)
  show "\<exists>ys. preprocess_forder_order Omitted v ''forder'' = Inr (map IntL ys) \<and>
            sorted_wrt (>) ys \<and> set ys = {i \<in> label_values v. i < 0}"
    using assms ns(1) sns sorted_wrt_greater_rev
    by (intro exI [of _ "rev (sort (remdups (filter (\<lambda>i. i < 0) ns)))"])
       (auto simp: preprocess_forder_order_def create_forder_def)
qed

lemma ncon_order_default:
  assumes "preprocess_indices v_arg = Inr v" "preprocess_forder_order Omitted v ''order'' = Inr xs"
  shows "ncon B pick listing L_arg v_arg Omitted forder_arg chk
         = ncon B pick listing L_arg v_arg (Given xs) forder_arg chk"
  using assms by (simp add: ncon_def preprocess_forder_order_def)

lemma ncon_forder_default:
  assumes "preprocess_indices v_arg = Inr v" "preprocess_forder_order Omitted v ''forder'' = Inr ys"
  shows "ncon B pick listing L_arg v_arg order_arg Omitted chk
         = ncon B pick listing L_arg v_arg order_arg (Given ys) chk"
proof (cases "preprocess_forder_order order_arg v ''order''")
  case (Inl e)
  with assms(1) show ?thesis by (simp add: ncon_def)
next
  case (Inr ord)
  have "preprocess_forder_order (Given ys) v ''forder'' = Inr ys"
    by (simp add: preprocess_forder_order_def)
  with assms Inr show ?thesis by (simp add: ncon_def)
qed

lemma ncon_no_default:
  assumes "preprocess_indices v_arg = Inr v" "\<not> indices_are_ints v"
  shows "ncon B pick listing L_arg v_arg Omitted forder_arg chk = Inl (ValueError, [])"
    and "ncon B pick listing L_arg v_arg order_arg Omitted chk = Inl (ValueError, [])"
proof -
  from assms show "ncon B pick listing L_arg v_arg Omitted forder_arg chk = Inl (ValueError, [])"
    by (simp add: ncon_def preprocess_forder_order_def)
  from assms show "ncon B pick listing L_arg v_arg order_arg Omitted chk = Inl (ValueError, [])"
    by (cases order_arg) (simp_all add: ncon_def preprocess_forder_order_def)
qed

text \<open>
  C6. With \<open>order\<close> omitted, \<open>ncon\<close> uses the distinct positive integer labels of
  the leg lists in ascending order (it returns what it returns when that list is
  passed as \<open>order\<close>); with \<open>forder\<close> omitted it uses the distinct negative
  integer labels in descending order (\<open>-1, -2, -3, ...\<close>); when some label is not
  an integer, either omitted argument makes \<open>ncon\<close> raise \<open>ValueError\<close> instead,
  before any backend call.
\<close>

theorem default_order_forder:
  "(indices_are_ints v \<longrightarrow>
      (\<exists>xs. preprocess_forder_order Omitted v ''order'' = Inr (map IntL xs) \<and>
            sorted_wrt (<) xs \<and> set xs = {i \<in> label_values v. i > 0} \<and>
            (preprocess_indices v_arg = Inr v \<longrightarrow>
               ncon B pick listing L_arg v_arg Omitted forder_arg chk
               = ncon B pick listing L_arg v_arg (Given (map IntL xs)) forder_arg chk)) \<and>
      (\<exists>ys. preprocess_forder_order Omitted v ''forder'' = Inr (map IntL ys) \<and>
            sorted_wrt (>) ys \<and> set ys = {i \<in> label_values v. i < 0} \<and>
            (preprocess_indices v_arg = Inr v \<longrightarrow>
               ncon B pick listing L_arg v_arg order_arg Omitted chk
               = ncon B pick listing L_arg v_arg order_arg (Given (map IntL ys)) chk))) \<and>
   (\<not> indices_are_ints v \<longrightarrow>
      preprocess_forder_order Omitted v ''order'' = Inl ValueError \<and>
      preprocess_forder_order Omitted v ''forder'' = Inl ValueError \<and>
      (preprocess_indices v_arg = Inr v \<longrightarrow>
         ncon B pick listing L_arg v_arg Omitted forder_arg chk = Inl (ValueError, []) \<and>
         ncon B pick listing L_arg v_arg order_arg Omitted chk = Inl (ValueError, [])))"
proof (intro conjI impI)
  assume ints: "indices_are_ints v"
  from default_order_sorted(1) [OF ints] obtain xs where
    xs: "preprocess_forder_order Omitted v ''order'' = Inr (map IntL xs)"
      "sorted_wrt (<) xs" "set xs = {i \<in> label_values v. i > 0}" by blast
  from xs ncon_order_default [OF _ xs(1)]
  show "\<exists>xs. preprocess_forder_order Omitted v ''order'' = Inr (map IntL xs) \<and>
            sorted_wrt (<) xs \<and> set xs = {i \<in> label_values v. i > 0} \<and>
            (preprocess_indices v_arg = Inr v \<longrightarrow>
               ncon B pick listing L_arg v_arg Omitted forder_arg chk
               = ncon B pick listing L_arg v_arg (Given (map IntL xs)) forder_arg chk)"
    by blast
  from default_order_sorted(2) [OF ints] obtain ys where
    ys: "preprocess_forder_order Omitted v ''forder'' = Inr (map IntL ys)"
      "sorted_wrt (>) ys" "set ys = {i \<in> label_values v. i < 0}" by blast
  from ys ncon_forder_default [OF _ ys(1)]
  show "\<exists>ys. preprocess_forder_order Omitted v ''forder'' = Inr (map IntL ys) \<and>
            sorted_wrt (>) ys \<and> set ys = {i \<in> label_values v. i < 0} \<and>
            (preprocess_indices v_arg = Inr v \<longrightarrow>
               ncon B pick listing L_arg v_arg order_arg Omitted chk
               = ncon B pick listing L_arg v_arg order_arg (Given (map IntL ys)) chk)"
    by blast
next
  assume "\<not> indices_are_ints v"
  then show "preprocess_forder_order Omitted v ''order'' = Inl ValueError"
    by (simp add: preprocess_forder_order_def)
next
  assume "\<not> indices_are_ints v"
  then show "preprocess_forder_order Omitted v ''forder'' = Inl ValueError"
    by (simp add: preprocess_forder_order_def)
next
  assume "\<not> indices_are_ints v" "preprocess_indices v_arg = Inr v"
  then show "ncon B pick listing L_arg v_arg Omitted forder_arg chk = Inl (ValueError, [])"
    by (simp add: ncon_no_default)
next
  assume "\<not> indices_are_ints v" "preprocess_indices v_arg = Inr v"
  then show "ncon B pick listing L_arg v_arg order_arg Omitted chk = Inl (ValueError, [])"
    by (simp add: ncon_no_default)
qed

theorem default_order_forder_witness:
  "indices_are_ints [[IntL 3, IntL (-2), IntL 1], [IntL 1, IntL (-1), IntL 3]] \<and>
   preprocess_forder_order Omitted [[IntL 3, IntL (-2), IntL 1], [IntL 1, IntL (-1), IntL 3]] ''order''
     = Inr [IntL 1, IntL 3] \<and>
   preprocess_forder_order Omitted [[IntL 3, IntL (-2), IntL 1], [IntL 1, IntL (-1), IntL 3]] ''forder''
     = Inr [IntL (-1), IntL (-2)] \<and>
   (\<exists>xs. preprocess_forder_order Omitted [[IntL 3, IntL (-2), IntL 1], [IntL 1, IntL (-1), IntL 3]] ''order''
           = Inr (map IntL xs) \<and> sorted_wrt (<) xs \<and>
         set xs = {i \<in> label_values [[IntL 3, IntL (-2), IntL 1], [IntL 1, IntL (-1), IntL 3]]. i > 0}) \<and>
   \<not> indices_are_ints [[IntL 1, StrL ''a''], [IntL 1]] \<and>
   preprocess_forder_order Omitted [[IntL 1, StrL ''a''], [IntL 1]] ''order'' = Inl ValueError \<and>
   ncon shape_backend hd id (TensorList [[2, 3], [2]]) (NestedIndices [[IntL 1, StrL ''a''], [IntL 1]])
     Omitted (Given [StrL ''a'']) True = Inl (ValueError, []) \<and>
   ncon shape_backend hd id (TensorList [[2, 3], [2]]) (NestedIndices [[IntL 1, StrL ''a''], [IntL 1]])
     (Given [IntL 1]) Omitted True = Inl (ValueError, [])"
proof -
  let ?v = "[[IntL 3, IntL (-2), IntL 1], [IntL 1, IntL (-1), IntL 3]]"
  let ?w = "[[IntL 1, StrL ''a''], [IntL 1]]"
  have a: "indices_are_ints ?v"
    by (simp add: indices_are_ints_def is_int_def)
  have b: "\<not> indices_are_ints ?w"
    by (simp add: indices_are_ints_def is_int_def)
  have c: "preprocess_forder_order Omitted ?v ''order'' = Inr [IntL 1, IntL 3]"
    by (simp add: preprocess_forder_order_def create_order_def indices_are_ints_def is_int_def)
  have d: "preprocess_forder_order Omitted ?v ''forder'' = Inr [IntL (-1), IntL (-2)]"
    by (simp add: preprocess_forder_order_def create_forder_def indices_are_ints_def is_int_def)
  have p: "preprocess_indices (NestedIndices ?w) = Inr ?w"
    by (simp add: preprocess_indices_def)
  note t1 = default_order_forder [of ?v "NestedIndices ?v" shape_backend hd id
      "TensorList [[2, 3, 4], [4, 2, 3]]" Omitted True Omitted]
  note t2 = default_order_forder [of ?w "NestedIndices ?w" shape_backend hd id
      "TensorList [[2, 3], [2]]" "Given [StrL ''a'']" True "Given [IntL 1]"]
  from a t1 have e: "\<exists>xs. preprocess_forder_order Omitted ?v ''order'' = Inr (map IntL xs) \<and>
      sorted_wrt (<) xs \<and> set xs = {i \<in> label_values ?v. i > 0}"
    by blast
  from b p t2 have f: "preprocess_forder_order Omitted ?w ''order'' = Inl ValueError"
    "ncon shape_backend hd id (TensorList [[2, 3], [2]]) (NestedIndices ?w)
       Omitted (Given [StrL ''a'']) True = Inl (ValueError, [])"
    "ncon shape_backend hd id (TensorList [[2, 3], [2]]) (NestedIndices ?w)
       (Given [IntL 1]) Omitted True = Inl (ValueError, [])"
    by blast+
  from a b c d e f show ?thesis by blast
qed


subsection \<open>Participant lookup\<close>

lemma tcon_set: "set (filter (\<lambda>i. x \<in> set (v ! i)) [0..<length v]) = holders v x"
  by (auto simp: holders_def)

lemma tcon_sorted_list:
  "filter (\<lambda>i. x \<in> set (v ! i)) [0..<length v] = sorted_list_of_set (holders v x)"
proof -
  let ?t = "filter (\<lambda>i. x \<in> set (v ! i)) [0..<length v]"
  have "sorted ?t" "distinct ?t" by (simp_all add: sorted_wrt_filter)
  then have "sorted_list_of_set (set ?t) = ?t"
    by (rule sorted_list_of_set.idem_if_sorted_distinct)
  then show ?thesis by (simp only: tcon_set)
qed

lemma tcon_length:
  "length (filter (\<lambda>i. x \<in> set (v ! i)) [0..<length v]) = card (holders v x)"
proof -
  have "distinct (filter (\<lambda>i. x \<in> set (v ! i)) [0..<length v])" by simp
  from distinct_card [OF this] show ?thesis by (simp only: tcon_set)
qed

lemma holders_single:
  assumes "card (holders v x) = 1"
  shows "holders v x = {filter (\<lambda>i. x \<in> set (v ! i)) [0..<length v] ! 0}"
proof -
  let ?t = "filter (\<lambda>i. x \<in> set (v ! i)) [0..<length v]"
  have "length ?t = 1" using assms by (simp add: tcon_length)
  then obtain a where a: "?t = [a]" by (cases ?t) auto
  have "set ?t = holders v x" by (rule tcon_set)
  with a show ?thesis by (simp del: set_filter)
qed

text \<open>
  C7. \<open>get_tcon(v, index)\<close> raises exactly when the number of leg lists that
  contain the index is zero, is greater than two, or is one while the index does
  not occur exactly twice in that leg list; otherwise it returns the positions
  (ascending) of the one or two leg lists that contain the index.
\<close>

theorem get_tcon_cases:
  "(isl (get_tcon v x) \<longleftrightarrow>
      card (holders v x) = 0 \<or> card (holders v x) > 2 \<or>
      (card (holders v x) = 1 \<and> (\<exists>i \<in> holders v x. count_list (v ! i) x \<noteq> 2))) \<and>
   (\<not> isl (get_tcon v x) \<longrightarrow> get_tcon v x = Inr (sorted_list_of_set (holders v x)))"
proof -
  let ?t = "filter (\<lambda>i. x \<in> set (v ! i)) [0..<length v]"
  have len: "length ?t = card (holders v x)" by (rule tcon_length)
  have srt: "?t = sorted_list_of_set (holders v x)" by (rule tcon_sorted_list)
  consider (zero) "card (holders v x) = 0" | (one) "card (holders v x) = 1"
    | (two) "card (holders v x) = 2" | (more) "card (holders v x) > 2"
    by linarith
  then show ?thesis
  proof cases
    case zero
    then show ?thesis using len by (simp add: get_tcon_def Let_def)
  next
    case one
    from holders_single [OF one] have h: "holders v x = {?t ! 0}" .
    have "(\<exists>i \<in> holders v x. count_list (v ! i) x \<noteq> 2) \<longleftrightarrow> count_list (v ! (?t ! 0)) x \<noteq> 2"
      by (subst h) simp
    then show ?thesis using one len srt by (simp add: get_tcon_def Let_def)
  next
    case two
    then show ?thesis using len srt by (simp add: get_tcon_def Let_def)
  next
    case more
    then show ?thesis using len by (simp add: get_tcon_def Let_def)
  qed
qed


theorem get_tcon_cases_witness:
  "get_tcon [[IntL 1, IntL 2], [IntL 2], [IntL 1]] (IntL 1) = Inr [0, 2] \<and>
   sorted_list_of_set (holders [[IntL 1, IntL 2], [IntL 2], [IntL 1]] (IntL 1)) = [0, 2] \<and>
   isl (get_tcon [[IntL 1, IntL 2], [IntL 2, IntL 2], [IntL 3]] (IntL 1)) \<and>
   card (holders [[IntL 1, IntL 2], [IntL 2, IntL 2], [IntL 3]] (IntL 1)) = 1"
proof -
  have a: "get_tcon [[IntL 1, IntL 2], [IntL 2], [IntL 1]] (IntL 1) = Inr [0, 2]"
    by (simp add: get_tcon_def)
  have b: "isl (get_tcon [[IntL 1, IntL 2], [IntL 2, IntL 2], [IntL 3]] (IntL 1))"
    by (simp add: get_tcon_def)
  have c: "holders [[IntL 1, IntL 2], [IntL 2, IntL 2], [IntL 3]] (IntL 1) = {0}"
    by (auto simp: holders_def less_Suc_eq)
  from a b c get_tcon_cases [of "[[IntL 1, IntL 2], [IntL 2], [IntL 1]]" "IntL 1"]
    get_tcon_cases [of "[[IntL 1, IntL 2], [IntL 2, IntL 2], [IntL 3]]" "IntL 1"]
  show ?thesis by simp
qed

subsection \<open>Output arranger\<close>

lemma py_index_Inr:
  "x \<in> set v \<Longrightarrow> \<exists>p. py_index v x = Inr p \<and> p < length v \<and> v ! p = x \<and> (\<forall>j<p. v ! j \<noteq> x)"
proof (induction v)
  case Nil then show ?case by simp
next
  case (Cons y ys)
  show ?case
  proof (cases "y = x")
    case True then show ?thesis by simp
  next
    case False
    with Cons obtain p where p: "py_index ys x = Inr p" "p < length ys" "ys ! p = x" "\<forall>j<p. ys ! j \<noteq> x"
      by auto
    have "\<forall>j<Suc p. (y # ys) ! j \<noteq> x"
      using False p(4) by (auto simp: nth_Cons split: nat.splits)
    with False p show ?thesis by simp
  qed
qed

lemma py_index_Inl: "x \<notin> set v \<Longrightarrow> py_index v x = Inl ValueError"
  by (induction v) auto

lemma py_index_error: "py_index v x = Inl e \<Longrightarrow> e = ValueError"
  by (induction v arbitrary: e) (auto split: if_splits sum.splits)

lemma final_perm_Inr:
  "set forder \<subseteq> set v \<Longrightarrow>
   \<exists>perm. final_perm v forder = Inr perm \<and> length perm = length forder \<and>
     (\<forall>k<length forder. perm ! k < length v \<and> v ! (perm ! k) = forder ! k \<and>
        (\<forall>j<perm ! k. v ! j \<noteq> forder ! k))"
proof (induction forder)
  case Nil then show ?case by simp
next
  case (Cons x xs)
  then obtain perm where perm: "final_perm v xs = Inr perm" "length perm = length xs"
    "\<forall>k<length xs. perm ! k < length v \<and> v ! (perm ! k) = xs ! k \<and> (\<forall>j<perm ! k. v ! j \<noteq> xs ! k)"
    by auto
  from Cons.prems obtain p where p: "py_index v x = Inr p" "p < length v" "v ! p = x" "\<forall>j<p. v ! j \<noteq> x"
    using py_index_Inr [of x v] by auto
  have "\<forall>k<length (x # xs). (p # perm) ! k < length v \<and> v ! ((p # perm) ! k) = (x # xs) ! k \<and>
        (\<forall>j<(p # perm) ! k. v ! j \<noteq> (x # xs) ! k)"
    using p perm(3) by (auto simp: nth_Cons split: nat.splits)
  with p(1) perm(1,2) show ?case
    by (intro exI [of _ "p # perm"]) simp
qed

lemma final_perm_Inl:
  "\<not> set forder \<subseteq> set v \<Longrightarrow> final_perm v forder = Inl ValueError"
proof (induction forder)
  case Nil then show ?case by simp
next
  case (Cons x xs)
  show ?case
  proof (cases "x \<in> set v")
    case False then show ?thesis by (simp add: py_index_Inl)
  next
    case True
    with Cons.prems have "\<not> set xs \<subseteq> set v" by auto
    with Cons.IH have "final_perm v xs = Inl ValueError" by simp
    moreover from True obtain p where "py_index v x = Inr p"
      using py_index_Inr [of x v] by blast
    ultimately show ?thesis by simp
  qed
qed

text \<open>
  C8. \<open>permute_final(A, v, forder)\<close> invokes the backend's \<open>permute\<close> once, on
  \<open>A\<close> and the permutation \<open>perm\<close> in which \<open>perm[k]\<close> is the position of the
  first occurrence of \<open>forder[k]\<close> in \<open>v\<close>, and returns what the backend returns;
  when some label of \<open>forder\<close> is absent from \<open>v\<close> it raises \<open>ValueError\<close>
  (index not found) and the backend is not invoked.
\<close>

theorem permute_final_perm:
  "(set forder \<subseteq> set v \<longrightarrow>
      (\<exists>perm. length perm = length forder \<and>
         (\<forall>k<length forder. perm ! k < length v \<and> v ! (perm ! k) = forder ! k \<and>
            (\<forall>j<perm ! k. v ! j \<noteq> forder ! k)) \<and>
         permute_final B A v forder cs =
           (case permute B A perm of
              Inl e \<Rightarrow> Inl (e, cs @ [PermuteCall A perm])
            | Inr A' \<Rightarrow> Inr (A', cs @ [PermuteCall A perm])))) \<and>
   (\<not> set forder \<subseteq> set v \<longrightarrow> permute_final B A v forder cs = Inl (ValueError, cs))"
proof (intro conjI impI)
  assume "set forder \<subseteq> set v"
  from final_perm_Inr [OF this] obtain perm where
    perm: "final_perm v forder = Inr perm" "length perm = length forder"
    "\<forall>k<length forder. perm ! k < length v \<and> v ! (perm ! k) = forder ! k \<and>
        (\<forall>j<perm ! k. v ! j \<noteq> forder ! k)" by blast
  have "permute_final B A v forder cs =
           (case permute B A perm of
              Inl e \<Rightarrow> Inl (e, cs @ [PermuteCall A perm])
            | Inr A' \<Rightarrow> Inr (A', cs @ [PermuteCall A perm]))"
    by (simp add: permute_final_def perm(1))
  with perm(2,3) show "\<exists>perm. length perm = length forder \<and>
         (\<forall>k<length forder. perm ! k < length v \<and> v ! (perm ! k) = forder ! k \<and>
            (\<forall>j<perm ! k. v ! j \<noteq> forder ! k)) \<and>
         permute_final B A v forder cs =
           (case permute B A perm of
              Inl e \<Rightarrow> Inl (e, cs @ [PermuteCall A perm])
            | Inr A' \<Rightarrow> Inr (A', cs @ [PermuteCall A perm]))" by blast
next
  assume "\<not> set forder \<subseteq> set v"
  then show "permute_final B A v forder cs = Inl (ValueError, cs)"
    by (simp add: permute_final_def final_perm_Inl)
qed

theorem permute_final_perm_witness:
  "permute_final shape_backend [2, 3, 5] [IntL (-2), IntL (-3), IntL (-1)]
      [IntL (-1), IntL (-2), IntL (-3)] []
     = Inr ([5, 2, 3], [PermuteCall [2, 3, 5] [2, 0, 1]]) \<and>
   permute_final shape_backend [2, 3] [IntL (-2), IntL (-3)] [IntL (-1), IntL (-2)] []
     = Inl (ValueError, [])"
proof -
  have a: "permute_final shape_backend [2, 3, 5] [IntL (-2), IntL (-3), IntL (-1)]
      [IntL (-1), IntL (-2), IntL (-3)] []
     = Inr ([5, 2, 3], [PermuteCall [2, 3, 5] [2, 0, 1]])"
    by (simp add: permute_final_def shape_backend_def shape_permute_def)
  from a permute_final_perm [of "[IntL (-1), IntL (-2)]" "[IntL (-2), IntL (-3)]"
      shape_backend "[2, 3]" "[]"]
    permute_final_perm [of "[IntL (-1), IntL (-2), IntL (-3)]" "[IntL (-2), IntL (-3), IntL (-1)]"
      shape_backend "[2, 3, 5]" "[]"]
  show ?thesis by simp
qed


subsection \<open>Index validator\<close>

lemma check_ranks_eq:
  "check_ranks ps =
     (if \<exists>p\<in>set ps. length (fst p) \<noteq> length (snd p) then Inl ValueError else Inr ())"
  by (induction ps rule: check_ranks.induct) auto

lemma check_order_groups_isl:
  "isl (check_order_groups B L ps) \<longleftrightarrow>
     (\<exists>p\<in>set ps. length (snd p) \<noteq> 2 \<or> \<not> compatible B L (snd p ! 0) (snd p ! 1))"
  by (induction B L ps rule: check_order_groups.induct) auto

lemma check_forder_groups_isl:
  "isl (check_forder_groups ps) \<longleftrightarrow> (\<exists>p\<in>set ps. length (snd p) \<noteq> 1)"
  by (induction ps rule: check_forder_groups.induct) auto

lemma zip_axes: "zip (map (\<lambda>j. (n, j)) [0..<length s]) s = map (\<lambda>j. ((n, j), s ! j)) [0..<length s]"
  by (rule nth_equalityI) auto

lemma group_from:
  "map fst (filter (\<lambda>(t, x). x = e)
      (zip (concat (map (\<lambda>(i, s). map (\<lambda>j. (i, j)) [0..<length s]) (enumerate n v))) (concat v)))
   = legs_from n v e"
proof (induction v arbitrary: n)
  case Nil
  then show ?case by simp
next
  case (Cons s v)
  have "map fst (filter (\<lambda>(t, x). x = e) (zip (map (\<lambda>j. (n, j)) [0..<length s]) s))
        = map (\<lambda>j. (n, j)) (filter (\<lambda>j. s ! j = e) [0..<length s])"
    by (simp add: zip_axes filter_map comp_def)
  with Cons.IH [of "Suc n"] show ?case by (simp add: zip_append)
qed

lemma order_groups_nth:
  "order_groups v order = map (legs_from 0 v) order"
  by (simp add: order_groups_def v_pairs_def group_from)

lemma set_legs_from:
  "set (legs_from n v e) =
     {t. n \<le> fst t \<and> fst t < n + length v \<and> snd t < length (v ! (fst t - n)) \<and>
         v ! (fst t - n) ! snd t = e}"
proof (induction v arbitrary: n)
  case Nil
  then show ?case by simp
next
  case (Cons s v)
  show ?case
  proof (rule set_eqI)
    fix t :: "nat \<times> nat"
    obtain i j where t: "t = (i, j)" by (cases t)
    show "t \<in> set (legs_from n (s # v) e) \<longleftrightarrow>
          t \<in> {t. n \<le> fst t \<and> fst t < n + length (s # v) \<and>
                  snd t < length ((s # v) ! (fst t - n)) \<and> (s # v) ! (fst t - n) ! snd t = e}"
    proof (cases "i = n")
      case True
      then show ?thesis using t by (auto simp: Cons.IH)
    next
      case False
      then have "n \<le> i \<Longrightarrow> i - n = Suc (i - Suc n)"
        by arith
      then have "n \<le> i \<Longrightarrow> (s # v) ! (i - n) = v ! (i - Suc n)"
        by simp
      with False show ?thesis using t by (auto simp: Cons.IH)
    qed
  qed
qed

lemma set_legs_from_0: "set (legs_from 0 v e) = {t. leg_at v t e}"
  by (simp add: set_legs_from leg_at_def)

lemma sorted_legs_from: "sorted_wrt leg_before (legs_from n v e)"
proof (induction v arbitrary: n)
  case Nil
  then show ?case by simp
next
  case (Cons s v)
  have a: "sorted_wrt leg_before (map (\<lambda>j. (n, j)) (filter (\<lambda>j. s ! j = e) [0..<length s]))"
    by (simp add: sorted_wrt_map leg_before_def sorted_wrt_filter)
  have b: "\<forall>x\<in>set (map (\<lambda>j. (n, j)) (filter (\<lambda>j. s ! j = e) [0..<length s])).
           \<forall>y\<in>set (legs_from (Suc n) v e). leg_before x y"
    by (auto simp: set_legs_from leg_before_def)
  from a b Cons.IH [of "Suc n"] show ?case
    by (simp add: sorted_wrt_append)
qed

lemma length_legs_from: "length (legs_from n v e) = count_list (concat v) e"
proof (induction v arbitrary: n)
  case Nil
  then show ?case by simp
next
  case (Cons s v)
  have "length (filter (\<lambda>j. s ! j = e) [0..<length s]) = count_list s e"
  proof (induction s rule: rev_induct)
    case Nil
    then show ?case by simp
  next
    case (snoc x xs)
    have "filter (\<lambda>j. (xs @ [x]) ! j = e) [0..<length xs] = filter (\<lambda>j. xs ! j = e) [0..<length xs]"
      by (rule filter_cong) (auto simp: nth_append)
    with snoc show ?case by simp
  qed
  with Cons.IH [of "Suc n"] show ?case by simp
qed

lemma leg_before_irrefl: "\<not> leg_before t t"
  by (simp add: leg_before_def)

lemma leg_before_asym: "leg_before s t \<Longrightarrow> \<not> leg_before t s"
  by (auto simp: leg_before_def)

lemma pair_group:
  assumes "occurrences v e = 2"
  shows "\<exists>t0 t1. legs_from 0 v e = [t0, t1] \<and> leg_at v t0 e \<and> leg_at v t1 e \<and> leg_before t0 t1 \<and>
           (\<forall>s t. leg_at v s e \<and> leg_at v t e \<and> leg_before s t \<longrightarrow> s = t0 \<and> t = t1)"
proof -
  have "length (legs_from 0 v e) = 2"
    using assms by (simp add: length_legs_from occurrences_def)
  then obtain t0 t1 where g: "legs_from 0 v e = [t0, t1]"
    by (cases "legs_from 0 v e" rule: list.exhaust; simp; metis length_0_conv length_Suc_conv)
  have st: "{t. leg_at v t e} = {t0, t1}"
    using set_legs_from_0 [of v e] g by simp
  have b: "leg_before t0 t1"
    using sorted_legs_from [of 0 v e] g by simp
  have u: "s = t0 \<and> t = t1" if "leg_at v s e" "leg_at v t e" "leg_before s t" for s t
  proof -
    from that(1,2) st have "s \<in> {t0, t1}" "t \<in> {t0, t1}" by blast+
    with that(3) b show ?thesis
      by (metis leg_before_irrefl leg_before_asym insertE singletonD)
  qed
  from g st b u show ?thesis by blast
qed

lemma bad_order_index:
  "(length (legs_from 0 v e) \<noteq> 2 \<or>
      \<not> compatible B L (legs_from 0 v e ! 0) (legs_from 0 v e ! 1)) \<longleftrightarrow>
   (occurrences v e \<noteq> 2 \<or>
      (\<exists>t0 t1. leg_at v t0 e \<and> leg_at v t1 e \<and> leg_before t0 t1 \<and> \<not> compatible B L t0 t1))"
proof (cases "occurrences v e = 2")
  case False
  then show ?thesis by (simp add: length_legs_from occurrences_def)
next
  case True
  from pair_group [OF True] obtain t0 t1 where
    g: "legs_from 0 v e = [t0, t1]" and l: "leg_at v t0 e" "leg_at v t1 e" "leg_before t0 t1"
    and u: "\<forall>s t. leg_at v s e \<and> leg_at v t e \<and> leg_before s t \<longrightarrow> s = t0 \<and> t = t1"
    by blast
  have "(\<exists>s t. leg_at v s e \<and> leg_at v t e \<and> leg_before s t \<and> \<not> compatible B L s t)
        \<longleftrightarrow> \<not> compatible B L t0 t1"
    using l u by blast
  with True g show ?thesis by simp
qed

lemma length_filter_eq_count: "length (filter (\<lambda>x. x = e) xs) = count_list xs e"
  by (induction xs) auto

lemma order_check_isl:
  "isl (check_order_groups B L (zip order (order_groups v order))) \<longleftrightarrow>
   (\<exists>e\<in>set order. occurrences v e \<noteq> 2) \<or>
   (\<exists>e\<in>set order. \<exists>t0 t1. leg_at v t0 e \<and> leg_at v t1 e \<and> leg_before t0 t1 \<and>
                              \<not> compatible B L t0 t1)"
proof -
  have z: "zip order (map (legs_from 0 v) order) = map (\<lambda>e. (e, legs_from 0 v e)) order"
    by (induction order) auto
  have "isl (check_order_groups B L (zip order (order_groups v order))) \<longleftrightarrow>
        (\<exists>e\<in>set order. length (legs_from 0 v e) \<noteq> 2 \<or>
            \<not> compatible B L (legs_from 0 v e ! 0) (legs_from 0 v e ! 1))"
    by (simp add: check_order_groups_isl order_groups_nth z)
  also have "\<dots> \<longleftrightarrow> (\<exists>e\<in>set order. occurrences v e \<noteq> 2 \<or>
      (\<exists>t0 t1. leg_at v t0 e \<and> leg_at v t1 e \<and> leg_before t0 t1 \<and> \<not> compatible B L t0 t1))"
    by (simp only: bad_order_index)
  finally show ?thesis by blast
qed

lemma forder_check_isl:
  "isl (check_forder_groups (zip forder (forder_groups v forder))) \<longleftrightarrow>
   (\<exists>e\<in>set forder. occurrences v e \<noteq> 1)"
proof -
  have z: "zip forder (forder_groups v forder)
           = map (\<lambda>e. (e, map (\<lambda>fo. 1) (filter (\<lambda>fo. fo = e) (concat v)))) forder"
    unfolding forder_groups_def by (induction forder) auto
  show ?thesis
    by (simp add: check_forder_groups_isl z length_filter_eq_count occurrences_def)
qed

lemma rank_check_isl:
  assumes "length L = length v"
  shows "isl (check_ranks (zip v (map (shape B) L))) \<longleftrightarrow>
         (\<exists>i<length v. length (v ! i) \<noteq> rank B (L ! i))"
proof -
  have "(\<exists>p\<in>set (zip v (map (shape B) L)). length (fst p) \<noteq> length (snd p)) \<longleftrightarrow>
        (\<exists>i<length v. length (v ! i) \<noteq> rank B (L ! i))"
  proof
    assume "\<exists>p\<in>set (zip v (map (shape B) L)). length (fst p) \<noteq> length (snd p)"
    then obtain p where p: "p \<in> set (zip v (map (shape B) L))" "length (fst p) \<noteq> length (snd p)"
      by blast
    from p(1) obtain i where "i < length v" "p = (v ! i, map (shape B) L ! i)"
      using assms by (auto simp: set_zip)
    with p(2) assms show "\<exists>i<length v. length (v ! i) \<noteq> rank B (L ! i)"
      by (auto simp: rank_def)
  next
    assume "\<exists>i<length v. length (v ! i) \<noteq> rank B (L ! i)"
    then obtain i where i: "i < length v" "length (v ! i) \<noteq> rank B (L ! i)" by blast
    then have "(v ! i, map (shape B) L ! i) \<in> set (zip v (map (shape B) L))"
      using assms by (force simp: set_zip)
    with i assms show "\<exists>p\<in>set (zip v (map (shape B) L)). length (fst p) \<noteq> length (snd p)"
      by (force simp: rank_def)
  qed
  then show ?thesis by (simp add: check_ranks_eq)
qed

lemma not_isl_unit: "\<not> isl (r :: error + unit) \<Longrightarrow> r = Inr ()"
  by (cases r) auto

lemma validator_verdict:
  "(isl (do_check_indices B L v order forder) \<longleftrightarrow> malformed B L v order forder) \<and>
   (\<not> malformed B L v order forder \<longrightarrow> do_check_indices B L v order forder = Inr True)"
proof (cases "length L = length v")
  case False
  then show ?thesis by (simp add: do_check_indices_def malformed_def)
next
  case len: True
  let ?r = "check_ranks (zip v (map (shape B) L))"
  let ?o = "check_order_groups B L (zip order (order_groups v order))"
  let ?f = "check_forder_groups (zip forder (forder_groups v forder))"
  have m: "malformed B L v order forder \<longleftrightarrow> isl ?r \<or> isl ?o \<or> isl ?f"
    using len by (simp add: malformed_def rank_check_isl order_check_isl forder_check_isl)
  show ?thesis
  proof (cases "isl ?r \<or> isl ?o \<or> isl ?f")
    case True
    then have "isl (do_check_indices B L v order forder)"
      using len by (auto simp: do_check_indices_def split: sum.splits)
    with True m show ?thesis by simp
  next
    case False
    then have "?r = Inr ()" "?o = Inr ()" "?f = Inr ()"
      by (simp_all add: not_isl_unit)
    then have "do_check_indices B L v order forder = Inr True"
      using len by (simp add: do_check_indices_def)
    with False m show ?thesis by simp
  qed
qed

text \<open>
  C1. \<open>do_check_indices(L, v, order, forder)\<close> raises if and only if the input
  is in one of the malformed classes: \<open>len(L) != len(v)\<close>; some \<open>len(v[i])\<close>
  differs from the rank of \<open>L[i]\<close>; some index of \<open>order\<close> does not occur exactly
  twice over all leg lists; the two legs that carry some index of \<open>order\<close> are
  incompatible (by the method \<open>compatible_indices\<close> of the first leg's tensor
  when it has one, by equality of the axis sizes otherwise); some index of
  \<open>forder\<close> does not occur exactly once. In no such case it returns \<open>True\<close>.
\<close>

theorem do_check_indices_raises:
  "(isl (do_check_indices B L v order forder) \<longleftrightarrow> malformed B L v order forder) \<and>
   (\<not> malformed B L v order forder \<longrightarrow> do_check_indices B L v order forder = Inr True)"
  by (rule validator_verdict)

theorem do_check_indices_raises_witness:
  "\<not> malformed shape_backend [[2, 3], [3, 4]] [[IntL (-1), IntL 1], [IntL 1, IntL (-2)]]
      [IntL 1] [IntL (-1), IntL (-2)] \<and>
   do_check_indices shape_backend [[2, 3], [3, 4]] [[IntL (-1), IntL 1], [IntL 1, IntL (-2)]]
      [IntL 1] [IntL (-1), IntL (-2)] = Inr True \<and>
   malformed shape_backend [[2, 3], [5, 4]] [[IntL (-1), IntL 1], [IntL 1, IntL (-2)]]
      [IntL 1] [IntL (-1), IntL (-2)] \<and>
   do_check_indices shape_backend [[2, 3], [5, 4]] [[IntL (-1), IntL 1], [IntL 1, IntL (-2)]]
      [IntL 1] [IntL (-1), IntL (-2)] = Inl ValueError"
proof -
  have a: "do_check_indices shape_backend [[2, 3], [3, 4]] [[IntL (-1), IntL 1], [IntL 1, IntL (-2)]]
      [IntL 1] [IntL (-1), IntL (-2)] = Inr True"
    by (simp add: do_check_indices_def order_groups_def forder_groups_def v_pairs_def compatible_def
      shape_backend_def)
  have b: "do_check_indices shape_backend [[2, 3], [5, 4]] [[IntL (-1), IntL 1], [IntL 1, IntL (-2)]]
      [IntL 1] [IntL (-1), IntL (-2)] = Inl ValueError"
    by (simp add: do_check_indices_def order_groups_def forder_groups_def v_pairs_def compatible_def
      shape_backend_def index_error_def)
  from a b
    do_check_indices_raises [of shape_backend "[[2, 3], [3, 4]]"
      "[[IntL (-1), IntL 1], [IntL 1, IntL (-2)]]" "[IntL 1]" "[IntL (-1), IntL (-2)]"]
    do_check_indices_raises [of shape_backend "[[2, 3], [5, 4]]"
      "[[IntL (-1), IntL 1], [IntL 1, IntL (-2)]]" "[IntL 1]" "[IntL (-1), IntL (-2)]"]
  show ?thesis by simp
qed


text \<open>
  C10. \<open>do_check_indices\<close> does not check that \<open>order\<close> covers every repeated
  label: in the network of two rank-2 tensors with the leg lists \<open>[x, y]\<close> and
  \<open>[x, y]\<close>, \<open>order = [x]\<close> and \<open>forder = []\<close>, the label \<open>y\<close> occurs exactly
  twice and is listed in neither \<open>order\<close> nor \<open>forder\<close>, and validation
  succeeds as soon as the two legs of \<open>x\<close> are compatible: the counts are checked
  for the labels of \<open>order\<close> and \<open>forder\<close> only.
\<close>

theorem unlisted_label_passes:
  "rank B A = 2 \<Longrightarrow> rank B A' = 2 \<Longrightarrow> compatible B [A, A'] (0, 0) (1, 0) \<Longrightarrow> x \<noteq> y \<Longrightarrow>
   occurrences [[x, y], [x, y]] y = 2 \<and> y \<notin> set [x] \<and> y \<notin> set [] \<and>
   do_check_indices B [A, A'] [[x, y], [x, y]] [x] [] = Inr True"
  by (simp add: do_check_indices_def order_groups_def forder_groups_def v_pairs_def
      occurrences_def rank_def)

theorem unlisted_label_passes_witness:
  "occurrences [[IntL 1, IntL 7], [IntL 1, IntL 7]] (IntL 7) = 2 \<and>
   IntL 7 \<notin> set [IntL 1] \<and> IntL 7 \<notin> set [] \<and>
   do_check_indices shape_backend [[2, 3], [2, 4]] [[IntL 1, IntL 7], [IntL 1, IntL 7]] [IntL 1] []
     = Inr True"
proof -
  have "rank shape_backend [2, 3] = 2" "rank shape_backend [2, 4] = 2"
    by (simp_all add: rank_def shape_backend_def)
  moreover have "compatible shape_backend [[2, 3], [2, 4]] (0, 0) (1, 0)"
    by (simp add: compatible_def shape_backend_def)
  moreover have "IntL 1 \<noteq> IntL 7" by simp
  ultimately show ?thesis by (rule unlisted_label_passes)
qed


subsection \<open>Validation comes first\<close>

lemma validator_isl:
  "isl (do_check_indices B L v order forder) \<longleftrightarrow> malformed B L v order forder"
  using validator_verdict by blast

lemma validator_passes:
  "\<not> malformed B L v order forder \<Longrightarrow> do_check_indices B L v order forder = Inr True"
  using validator_verdict by blast

text \<open>
  C9. When \<open>ncon\<close> is called with \<open>check_indices\<close> enabled and the prepared input
  is in one of the validator's malformed classes, it raises the validator's
  error before any backend operation is invoked (the history of backend calls
  is empty). The validator is read-only: it is a function of its arguments,
  and on an input that passes, \<open>ncon\<close> goes on from the very \<open>L\<close>, \<open>v\<close>, \<open>order\<close>
  and \<open>forder\<close> it was given, so its result is the one it has with the check
  disabled.
\<close>

theorem ncon_validation_first:
  "preprocess_indices v_arg = Inr v \<and>
   preprocess_forder_order order_arg v ''order'' = Inr ord \<and>
   preprocess_forder_order forder_arg v ''forder'' = Inr forder \<longrightarrow>
     (malformed B (preprocess_tensors L_arg) v ord forder \<longrightarrow>
        (\<exists>e. do_check_indices B (preprocess_tensors L_arg) v ord forder = Inl e \<and>
             ncon B pick listing L_arg v_arg order_arg forder_arg True = Inl (e, []))) \<and>
     (\<not> malformed B (preprocess_tensors L_arg) v ord forder \<longrightarrow>
        ncon B pick listing L_arg v_arg order_arg forder_arg True =
        ncon B pick listing L_arg v_arg order_arg forder_arg False)"
proof (intro impI conjI, goal_cases)
  case 1
  from 1(2) obtain e where e: "do_check_indices B (preprocess_tensors L_arg) v ord forder = Inl e"
    using validator_isl [of B "preprocess_tensors L_arg" v ord forder]
    by (cases "do_check_indices B (preprocess_tensors L_arg) v ord forder") auto
  with 1(1) have "ncon B pick listing L_arg v_arg order_arg forder_arg True = Inl (e, [])"
    by (simp add: ncon_def)
  with e show ?case by blast
next
  case 2
  from validator_passes [OF 2(2)] 2(1) show ?case
    by (simp add: ncon_def)
qed

theorem ncon_validation_first_witness:
  "malformed shape_backend [[2, 3], [5, 4]] [[IntL (-1), IntL 1], [IntL 1, IntL (-2)]]
      [IntL 1] [IntL (-1), IntL (-2)] \<and>
   ncon shape_backend hd id (TensorList [[2, 3], [5, 4]])
      (NestedIndices [[IntL (-1), IntL 1], [IntL 1, IntL (-2)]]) Omitted Omitted True
     = Inl (ValueError, []) \<and>
   ncon shape_backend hd id (TensorList [[2, 3], [5, 4]])
      (NestedIndices [[IntL (-1), IntL 1], [IntL 1, IntL (-2)]]) Omitted Omitted False
     = Inl (BackendError, [ConCall [2, 3] [5, 4] [1] [0]]) \<and>
   \<not> malformed shape_backend [[2, 3], [3, 4]] [[IntL (-1), IntL 1], [IntL 1, IntL (-2)]]
      [IntL 1] [IntL (-1), IntL (-2)] \<and>
   ncon shape_backend hd id (TensorList [[2, 3], [3, 4]])
      (NestedIndices [[IntL (-1), IntL 1], [IntL 1, IntL (-2)]]) Omitted Omitted True
     = Inr ([2, 4], [ConCall [2, 3] [3, 4] [1] [0], PermuteCall [2, 4] [0, 1]])"
proof -
  let ?v = "[[IntL (-1), IntL 1], [IntL 1, IntL (-2)]]"
  have p: "preprocess_indices (NestedIndices ?v) = Inr ?v"
    "preprocess_forder_order Omitted ?v ''order'' = Inr [IntL 1]"
    "preprocess_forder_order Omitted ?v ''forder'' = Inr [IntL (-1), IntL (-2)]"
    by (simp_all add: preprocess_indices_def preprocess_forder_order_def create_order_def
        create_forder_def indices_are_ints_def is_int_def)
  have t: "preprocess_tensors (TensorList [[2, 3], [5, 4 :: nat]]) = [[2, 3], [5, 4]]"
    "preprocess_tensors (TensorList [[2, 3], [3, 4 :: nat]]) = [[2, 3], [3, 4]]"
    by (simp_all add: preprocess_tensors_def)
  have bad: "do_check_indices shape_backend [[2, 3], [5, 4]] ?v [IntL 1] [IntL (-1), IntL (-2)]
      = Inl ValueError"
    by (simp add: do_check_indices_def order_groups_def forder_groups_def v_pairs_def compatible_def
      shape_backend_def index_error_def)
  have good: "do_check_indices shape_backend [[2, 3], [3, 4]] ?v [IntL 1] [IntL (-1), IntL (-2)]
      = Inr True"
    by (simp add: do_check_indices_def order_groups_def forder_groups_def v_pairs_def compatible_def
      shape_backend_def)
  have mb: "malformed shape_backend [[2, 3], [5, 4]] ?v [IntL 1] [IntL (-1), IntL (-2)]"
    using validator_isl [of shape_backend "[[2, 3], [5, 4]]" ?v "[IntL 1]" "[IntL (-1), IntL (-2)]"]
      bad by simp
  have mg: "\<not> malformed shape_backend [[2, 3], [3, 4]] ?v [IntL 1] [IntL (-1), IntL (-2)]"
    using validator_isl [of shape_backend "[[2, 3], [3, 4]]" ?v "[IntL 1]" "[IntL (-1), IntL (-2)]"]
      good by simp
  have r1: "ncon shape_backend hd id (TensorList [[2, 3], [5, 4]]) (NestedIndices ?v) Omitted Omitted False
     = Inl (BackendError, [ConCall [2, 3] [5, 4] [1] [0]])"
    by code_simp
  have r2: "ncon shape_backend hd id (TensorList [[2, 3], [3, 4]]) (NestedIndices ?v) Omitted Omitted False
     = Inr ([2, 4], [ConCall [2, 3] [3, 4] [1] [0], PermuteCall [2, 4] [0, 1]])"
    by code_simp
  from p t bad mb mg r1 r2
    ncon_validation_first [of "NestedIndices ?v" ?v Omitted "[IntL 1]" Omitted
      "[IntL (-1), IntL (-2)]" shape_backend "TensorList [[2, 3], [5, 4]]" hd id]
    ncon_validation_first [of "NestedIndices ?v" ?v Omitted "[IntL 1]" Omitted
      "[IntL (-1), IntL (-2)]" shape_backend "TensorList [[2, 3], [3, 4]]" hd id]
  show ?thesis by simp
qed

subsection \<open>The invariant of the network state\<close>

lemma network_inv_aligned: "network_inv B s \<longleftrightarrow> aligned B (legs s) (tensors s)"
  by (auto simp: network_inv_def aligned_def list_all2_conv_all_nth)

lemma py_del_aligned:
  assumes "aligned B v L" "py_del L i = Inr L'" "py_del v i = Inr v'"
  shows "aligned B v' L'"
proof -
  from assms(2,3) have L': "L' = take i L @ drop (Suc i) L" and v': "v' = take i v @ drop (Suc i) v"
    by (auto simp: py_del_def split: if_splits)
  from assms(1) show ?thesis
    unfolding aligned_def L' v'
    by (intro list_all2_appendI list_all2_takeI list_all2_dropI)
qed

lemma delete_all_aligned:
  "delete_all ps L v = Inr (L', v') \<Longrightarrow> aligned B v L \<Longrightarrow> aligned B v' L'"
proof (induction ps arbitrary: L v)
  case Nil
  then show ?case by simp
next
  case (Cons i ps)
  from Cons.prems(1) obtain L1 v1 where
    d: "py_del L i = Inr L1" "py_del v i = Inr v1" "delete_all ps L1 v1 = Inr (L', v')"
    by (auto split: sum.splits)
  from py_del_aligned [OF Cons.prems(2) d(1,2)] have "aligned B v1 L1" .
  from Cons.IH [OF d(3) this] show ?case .
qed

lemma length_positions_one: "length (filter (\<lambda>i. inds ! i = e) [0..<length inds]) = count_list inds e"
proof (induction inds rule: rev_induct)
  case Nil
  then show ?case by simp
next
  case (snoc x xs)
  have "filter (\<lambda>j. (xs @ [x]) ! j = e) [0..<length xs] = filter (\<lambda>j. xs ! j = e) [0..<length xs]"
    by (rule filter_cong) (auto simp: nth_append)
  with snoc show ?case by simp
qed

lemma count_list_filter: "count_list inds e = length (filter (\<lambda>x. x = e) inds)"
  by (induction inds) auto

lemma length_positions:
  "distinct icon \<Longrightarrow> length (positions inds icon) = length (filter (\<lambda>x. x \<in> set icon) inds)"
proof (induction icon)
  case Nil
  then show ?case by (simp add: positions_def)
next
  case (Cons e icon)
  then have IH: "length (positions inds icon) = length (filter (\<lambda>x. x \<in> set icon) inds)"
    and ne: "e \<notin> set icon" by simp_all
  have split: "length (filter (\<lambda>x. x \<in> set (e # icon)) inds)
        = length (filter (\<lambda>x. x = e) inds) + length (filter (\<lambda>x. x \<in> set icon) inds)"
    using ne by (induction inds) auto
  have "length (positions inds (e # icon))
        = count_list inds e + length (positions inds icon)"
    by (simp add: positions_def length_positions_one)
  with IH split show ?case by (simp add: count_list_filter)
qed

lemma length_filter_compl:
  "length (filter (\<lambda>x. x \<notin> S) xs) + length (filter (\<lambda>x. x \<in> S) xs) = length xs"
  using sum_length_filter_compl [of "\<lambda>x. x \<in> S" xs] by simp

lemma map_nth_upt: "j \<le> length xs \<Longrightarrow> map (\<lambda>i. xs ! i) [i..<j] = drop i (take j xs)"
  by (rule nth_equalityI) auto

lemma iteration_parts:
  assumes "iteration B listing s idx = Inr s'"
  obtains tcon icon pos1 pos2 new_A newv where
    "get_tcon (legs s) idx = Inr tcon"
    "(if length tcon = 1 then Inr [idx] else get_icon listing (legs s) tcon) = Inr icon"
    "get_pos (legs s) tcon icon = Inr (pos1, pos2)"
    "contract B (tensors s) tcon (length tcon = 1) pos1 pos2 (calls s) = Inr (new_A, calls s')"
    "find_newv (legs s) tcon icon = Inr newv"
    "delete_all (rev (sort tcon)) (tensors s @ [new_A]) (legs s @ [newv]) = Inr (tensors s', legs s')"
    "corder s' = renew_order (corder s) icon"
proof -
  let ?v = "legs s" and ?L = "tensors s"
  from assms obtain tcon where tcon: "get_tcon ?v idx = Inr tcon"
    by (cases "get_tcon ?v idx") (simp_all add: iteration_def)
  let ?tr = "length tcon = 1"
  from assms tcon obtain icon where
    icon: "(if ?tr then Inr [idx] else get_icon listing ?v tcon) = Inr icon"
    by (cases "if ?tr then Inr [idx] else get_icon listing ?v tcon") (simp_all add: iteration_def Let_def)
  from assms tcon icon obtain pos1 pos2 where pos: "get_pos ?v tcon icon = Inr (pos1, pos2)"
    by (cases "get_pos ?v tcon icon") (auto simp: iteration_def Let_def)
  from assms tcon icon pos obtain new_A cs where
    ct: "contract B ?L tcon ?tr pos1 pos2 (calls s) = Inr (new_A, cs)"
    by (cases "contract B ?L tcon ?tr pos1 pos2 (calls s)") (auto simp: iteration_def Let_def)
  from assms tcon icon pos ct obtain newv where nv: "find_newv ?v tcon icon = Inr newv"
    by (cases "find_newv ?v tcon icon") (auto simp: iteration_def Let_def)
  from assms tcon icon pos ct nv obtain L' v' where
    del: "delete_all (rev (sort tcon)) (?L @ [new_A]) (?v @ [newv]) = Inr (L', v')"
    by (cases "delete_all (rev (sort tcon)) (?L @ [new_A]) (?v @ [newv])")
       (auto simp: iteration_def Let_def)
  from assms tcon icon pos ct nv del have
    s': "s' = \<lparr>tensors = L', legs = v', corder = renew_order (corder s) icon, calls = cs\<rparr>"
    by (simp add: iteration_def Let_def)
  show ?thesis
    by (rule that [OF tcon icon pos _ nv]) (use ct del s' in simp_all)
qed

lemma iteration_aligned:
  assumes inv: "aligned B (legs s) (tensors s)" and bc: "backend_contract B"
    and it: "iteration B listing s idx = Inr s'"
  shows "aligned B (legs s') (tensors s')"
proof -
  let ?v = "legs s" and ?L = "tensors s"
  from it obtain tcon where tcon: "get_tcon ?v idx = Inr tcon"
    by (cases "get_tcon ?v idx") (simp_all add: iteration_def)
  let ?tr = "length tcon = 1"
  from it tcon obtain icon where
    icon: "(if ?tr then Inr [idx] else get_icon listing ?v tcon) = Inr icon"
    by (cases "if ?tr then Inr [idx] else get_icon listing ?v tcon") (simp_all add: iteration_def Let_def)
  from it tcon icon obtain pos1 pos2 where pos: "get_pos ?v tcon icon = Inr (pos1, pos2)"
    by (cases "get_pos ?v tcon icon") (auto simp: iteration_def Let_def)
  from it tcon icon pos obtain new_A cs where
    ct: "contract B ?L tcon ?tr pos1 pos2 (calls s) = Inr (new_A, cs)"
    by (cases "contract B ?L tcon ?tr pos1 pos2 (calls s)") (auto simp: iteration_def Let_def)
  from it tcon icon pos ct obtain newv where nv: "find_newv ?v tcon icon = Inr newv"
    by (cases "find_newv ?v tcon icon") (auto simp: iteration_def Let_def)
  from it tcon icon pos ct nv have
    del: "delete_all (rev (sort tcon)) (?L @ [new_A]) (?v @ [newv]) = Inr (tensors s', legs s')"
    by (cases "delete_all (rev (sort tcon)) (?L @ [new_A]) (?v @ [newv])")
       (auto simp: iteration_def Let_def)
  have new: "length newv = rank B new_A"
  proof (cases ?tr)
    case True
    then obtain a where a: "tcon = [a]" using length_one by blast
    have "a \<in> set tcon" using a by simp
    then have al: "a < length ?v" unfolding get_tcon_set [OF tcon] by simp
    have cnt: "count_list (?v ! a) idx = 2"
      using tcon a by (auto simp: get_tcon_def Let_def split: if_splits)
    from icon True have ic: "icon = [idx]" by simp
    from nv a al ic have newv: "newv = filter (\<lambda>x. x \<noteq> idx) (?v ! a)"
      by (simp add: find_newv_def py_nth_def)
    from ct a True obtain p q where tr: "trace B (?L ! a) p q = Inr new_A" and aL: "a < length ?L"
      by (auto simp: contract_def py_nth_def split: sum.splits if_splits)
    from bc tr have r: "rank B new_A + 2 = rank B (?L ! a)"
      unfolding backend_contract_def by blast
    from inv al have "length (?v ! a) = rank B (?L ! a)"
      by (simp add: aligned_def list_all2_conv_all_nth)
    moreover have "length newv + 2 = length (?v ! a)"
      using length_filter_compl [of "{idx}" "?v ! a"] cnt
      by (simp add: newv count_list_filter)
    ultimately show ?thesis using r by simp
  next
    case False
    with get_tcon_mem(2) [OF tcon] have "length tcon = 2" by simp
    then obtain a b where ab: "tcon = [a, b]" using length_two by blast
    have "a \<in> set tcon" "b \<in> set tcon" using ab by simp_all
    then have al: "a < length ?v" "b < length ?v" unfolding get_tcon_set [OF tcon] by simp_all
    from icon False have "get_icon listing ?v tcon = Inr icon" by simp
    then have ic: "icon = set_to_list listing (filter (\<lambda>x. x \<in> set (?v ! b)) (?v ! a))"
      using ab al by (simp add: get_icon_def py_nth_def)
    then have dic: "distinct icon" by simp
    from pos ab al have p12: "pos1 = positions (?v ! a) icon" "pos2 = positions (?v ! b) icon"
      by (simp_all add: get_pos_def py_nth_def)
    from nv ab al have newv: "newv = filter (\<lambda>x. x \<notin> set icon) (?v ! a @ ?v ! b)"
      by (simp add: find_newv_def py_nth_def)
    from ct ab False have cn: "con B (?L ! a) (?L ! b) (pos1, pos2) = Inr new_A"
      by (auto simp: contract_def py_nth_def split: sum.splits if_splits)
    from bc cn have r: "length pos1 = length pos2"
      "rank B new_A + 2 * length pos1 = rank B (?L ! a) + rank B (?L ! b)"
      unfolding backend_contract_def by blast+
    from inv al have ra: "length (?v ! a) = rank B (?L ! a)" "length (?v ! b) = rank B (?L ! b)"
      by (simp_all add: aligned_def list_all2_conv_all_nth)
    have "length newv + length pos1 + length pos2 = length (?v ! a) + length (?v ! b)"
      using length_filter_compl [of "set icon" "?v ! a"] length_filter_compl [of "set icon" "?v ! b"]
      by (simp add: newv p12 length_positions [OF dic])
    with r ra show ?thesis by simp
  qed
  with inv have "aligned B (?v @ [newv]) (?L @ [new_A])"
    by (simp add: aligned_def list_all2_appendI)
  from delete_all_aligned [OF del this] show ?thesis .
qed

subsection \<open>Connectivity repairer\<close>

lemma adjacent_sym: "adjacent v i j \<Longrightarrow> adjacent v j i"
  by (auto simp: adjacent_def)

lemma reach_sym: "rtranclp (adjacent v) i j \<Longrightarrow> rtranclp (adjacent v) j i"
proof (induction rule: rtranclp_induct)
  case base
  then show ?case by simp
next
  case (step y z)
  from step.hyps(2) have "adjacent v z y" by (rule adjacent_sym)
  from converse_rtranclp_into_rtranclp [of "adjacent v", OF this step.IH] show ?case .
qed

lemma reach_trans: "rtranclp (adjacent v) i j \<Longrightarrow> rtranclp (adjacent v) j k \<Longrightarrow> rtranclp (adjacent v) i k"
  by (rule rtranclp_trans)

lemma neighs_adjacent:
  assumes "i < length v" "j \<in> set (neighs v (v ! i))"
  shows "adjacent v i j"
  using assms by (auto simp: neighs_def adjacent_def)

text \<open>What a run of the inner loop does, in terms of the set \<open>P\<close> of visited positions.\<close>

lemma visit_loop_visits:
  "visit_loop pick v to_visit unvisited component visited = Inr (u, c, w) \<Longrightarrow>
   \<exists>P. set u = set unvisited - P \<and> set c = set component \<union> P \<and> set w = set visited \<union> P \<and>
       set to_visit \<subseteq> P \<and>
       (\<forall>x\<in>P. x < length v \<and> (\<exists>r\<in>set to_visit. rtranclp (adjacent v) r x)) \<and>
       (set to_visit \<inter> set visited = {} \<longrightarrow> P \<inter> set visited = {})"
proof (induction pick v to_visit unvisited component visited rule: visit_loop.induct)
  case (1 pick v to_visit unvisited component visited)
  show ?case
  proof (cases "to_visit = []")
    case True
    with "1.prems" have "u = unvisited" "c = component" "w = visited"
      by (simp_all add: visit_loop.simps)
    with True show ?thesis by (intro exI [of _ "{}"]) simp
  next
    case False
    let ?i = "fst (set_pop pick to_visit)"
    let ?tv1 = "snd (set_pop pick to_visit)"
    let ?vis1 = "set_add ?i visited"
    from "1.prems" False obtain i_inds where nth: "py_nth v ?i = Inr i_inds"
      by (subst (asm) visit_loop.simps) (auto simp: Let_def split: sum.splits)
    let ?tv2 = "fold set_add (filter (\<lambda>neigh. neigh \<notin> set ?vis1) (neighs v i_inds)) ?tv1"
    from "1.prems" False nth have rec: "visit_loop pick v ?tv2
        (removeAll ?i unvisited) (set_add ?i component) ?vis1 = Inr (u, c, w)"
      by (subst (asm) visit_loop.simps) (simp add: Let_def)
    from "1.IH" [OF False refl refl refl refl refl nth rec] obtain P where
      Pall: "set u = set (removeAll ?i unvisited) - P \<and> set c = set (set_add ?i component) \<union> P \<and>
         set w = set ?vis1 \<union> P \<and> set ?tv2 \<subseteq> P \<and>
         (\<forall>x\<in>P. x < length v \<and> (\<exists>r\<in>set ?tv2. rtranclp (adjacent v) r x)) \<and>
         (set ?tv2 \<inter> set ?vis1 = {} \<longrightarrow> P \<inter> set ?vis1 = {})" ..
    note P = Pall [THEN conjunct1] Pall [THEN conjunct2, THEN conjunct1]
      Pall [THEN conjunct2, THEN conjunct2, THEN conjunct1]
      Pall [THEN conjunct2, THEN conjunct2, THEN conjunct2, THEN conjunct1]
      Pall [THEN conjunct2, THEN conjunct2, THEN conjunct2, THEN conjunct2, THEN conjunct1]
      Pall [THEN conjunct2, THEN conjunct2, THEN conjunct2, THEN conjunct2, THEN conjunct2]
    have mem: "?i \<in> set to_visit" using False by (rule set_pop_mem)
    have iv: "?i < length v" and inds: "i_inds = v ! ?i"
      using nth by (auto simp: py_nth_def split: if_splits)
    have tv1: "set ?tv1 = set to_visit - {?i}" by (simp add: set_pop_rest)
    have tv2: "set ?tv2 = {j \<in> set (neighs v i_inds). j \<notin> set ?vis1} \<union> (set to_visit - {?i})"
      by (simp add: tv1)
    have reach: "\<exists>r\<in>set to_visit. rtranclp (adjacent v) r x" if "x \<in> P" for x
    proof -
      from P(5) that obtain r where r: "r \<in> set ?tv2" "rtranclp (adjacent v) r x" by blast
      show ?thesis
      proof (cases "r \<in> set to_visit")
        case True
        with r(2) show ?thesis by blast
      next
        case False
        with r(1) tv2 have "r \<in> set (neighs v (v ! ?i))" using inds by auto
        from neighs_adjacent [OF iv this] have "adjacent v ?i r" .
        from converse_rtranclp_into_rtranclp [of "adjacent v", OF this r(2)]
        have "rtranclp (adjacent v) ?i x" .
        with mem show ?thesis by blast
      qed
    qed
    have disj: "insert ?i P \<inter> set visited = {}" if d: "set to_visit \<inter> set visited = {}"
    proof -
      from d mem have "?i \<notin> set visited" by blast
      moreover from d tv2 have "set ?tv2 \<inter> set ?vis1 = {}" by auto
      with P(6) have "P \<inter> set ?vis1 = {}" by blast
      ultimately show ?thesis by auto
    qed
    show ?thesis
    proof (intro exI [of _ "insert ?i P"] conjI)
      show "set u = set unvisited - insert ?i P" using P(1) by auto
      show "set c = set component \<union> insert ?i P" using P(2) by auto
      show "set w = set visited \<union> insert ?i P" using P(3) by auto
      show "set to_visit \<subseteq> insert ?i P" using P(4) tv2 by auto
      show "\<forall>x\<in>insert ?i P. x < length v \<and> (\<exists>r\<in>set to_visit. rtranclp (adjacent v) r x)"
      proof
        fix x assume x: "x \<in> insert ?i P"
        show "x < length v \<and> (\<exists>r\<in>set to_visit. rtranclp (adjacent v) r x)"
        proof (cases "x = ?i")
          case True
          have "rtranclp (adjacent v) ?i ?i" by simp
          with True iv mem show ?thesis by blast
        next
          case False
          with x have xP: "x \<in> P" by simp
          with P(5) have "x < length v" by blast
          with reach [OF xP] show ?thesis by blast
        qed
      qed
      show "set to_visit \<inter> set visited = {} \<longrightarrow> insert ?i P \<inter> set visited = {}"
        using disj by blast
    qed
  qed
qed

lemma components_loop_result:
  "components_loop pick v unvisited visited ccomponents = Inr result \<Longrightarrow>
   set unvisited \<inter> set visited = {} \<Longrightarrow>
   \<exists>new. result = ccomponents @ new \<and> (\<forall>K\<in>set new. component_ok v K) \<and>
         set unvisited \<subseteq> \<Union> (set ` set new) \<and> fresh_chain (set visited) new"
proof (induction pick v unvisited visited ccomponents rule: components_loop.induct)
  case (1 pick v unvisited visited ccomponents)
  show ?case
  proof (cases "unvisited = []")
    case True
    with "1.prems"(1) have "result = ccomponents" by (simp add: components_loop.simps)
    with True show ?thesis by (intro exI [of _ "[]"]) simp
  next
    case False
    let ?n = "fst (set_pop pick unvisited)"
    let ?u1 = "snd (set_pop pick unvisited)"
    from "1.prems"(1) False obtain u2 K w2 where
      vl: "visit_loop pick v [?n] ?u1 [] visited = Inr (u2, K, w2)"
      by (subst (asm) components_loop.simps) (auto simp: Let_def split: sum.splits)
    with "1.prems"(1) False have
      rec: "components_loop pick v u2 w2 (ccomponents @ [K]) = Inr result"
      by (subst (asm) components_loop.simps) (simp add: Let_def)
    have mem: "?n \<in> set unvisited" using False by (rule set_pop_mem)
    have u1: "set ?u1 = set unvisited - {?n}" by (simp add: set_pop_rest)
    from mem "1.prems"(2) have nv: "set [?n] \<inter> set visited = {}" by auto
    from visit_loop_visits [OF vl] obtain P where
      Pall: "set u2 = set ?u1 - P \<and> set K = set [] \<union> P \<and> set w2 = set visited \<union> P \<and>
         set [?n] \<subseteq> P \<and>
         (\<forall>x\<in>P. x < length v \<and> (\<exists>r\<in>set [?n]. rtranclp (adjacent v) r x)) \<and>
         (set [?n] \<inter> set visited = {} \<longrightarrow> P \<inter> set visited = {})" ..
    note P = Pall [THEN conjunct1] Pall [THEN conjunct2, THEN conjunct1]
      Pall [THEN conjunct2, THEN conjunct2, THEN conjunct1]
      Pall [THEN conjunct2, THEN conjunct2, THEN conjunct2, THEN conjunct1]
      Pall [THEN conjunct2, THEN conjunct2, THEN conjunct2, THEN conjunct2, THEN conjunct1]
      Pall [THEN conjunct2, THEN conjunct2, THEN conjunct2, THEN conjunct2, THEN conjunct2, THEN mp, OF nv]
    have KP: "set K = P" using P(2) by simp
    have Kok: "component_ok v K"
      unfolding component_ok_def
    proof (intro conjI)
      from P(4) KP show "K \<noteq> []" by auto
      from P(5) KP show "\<forall>x\<in>set K. x < length v" by blast
      from P(5) KP have "\<forall>x\<in>set K. rtranclp (adjacent v) ?n x" by auto
      then show "\<exists>r. \<forall>x\<in>set K. rtranclp (adjacent v) r x" by blast
    qed
    have d2: "set u2 \<inter> set w2 = {}"
      using P(1,3) u1 "1.prems"(2) by auto
    from "1.IH" [OF False refl refl vl refl refl rec d2] obtain new where
      nall: "result = (ccomponents @ [K]) @ new \<and> (\<forall>K\<in>set new. component_ok v K) \<and>
           set u2 \<subseteq> \<Union> (set ` set new) \<and> fresh_chain (set w2) new" ..
    note new = nall [THEN conjunct1] nall [THEN conjunct2, THEN conjunct1]
      nall [THEN conjunct2, THEN conjunct2, THEN conjunct1]
      nall [THEN conjunct2, THEN conjunct2, THEN conjunct2]
    show ?thesis
    proof (intro exI [of _ "K # new"] conjI)
      show "result = ccomponents @ K # new" using new(1) by simp
      show "\<forall>K\<in>set (K # new). component_ok v K" using Kok new(2) by simp
      show "set unvisited \<subseteq> \<Union> (set ` set (K # new))"
        using new(3) P(1,4) KP u1 by auto
      show "fresh_chain (set visited) (K # new)"
        using new(4) P(3,6) KP by (simp add: Int_commute)
    qed
  qed
qed

lemma fresh_dim_least:
  "n \<le> fresh_dim ord n \<and> IntL (fresh_dim ord n) \<notin> set ord \<and>
   (\<forall>m. n \<le> m \<and> m < fresh_dim ord n \<longrightarrow> IntL m \<in> set ord)"
proof (induction ord n rule: fresh_dim.induct)
  case (1 ord n)
  show ?case
  proof (cases "IntL n \<in> set ord")
    case False
    then have "fresh_dim ord n = n" by (simp add: fresh_dim.simps)
    with False show ?thesis by auto
  next
    case True
    then have eq: "fresh_dim ord n = fresh_dim ord (n + 1)"
      by (subst fresh_dim.simps) simp
    from "1.IH" [OF True] have
      a: "n + 1 \<le> fresh_dim ord (n + 1)" and b: "IntL (fresh_dim ord (n + 1)) \<notin> set ord"
      and c: "\<forall>m. n + 1 \<le> m \<and> m < fresh_dim ord (n + 1) \<longrightarrow> IntL m \<in> set ord"
      by blast+
    have "IntL m \<in> set ord" if "n \<le> m" "m < fresh_dim ord (n + 1)" for m
    proof (cases "m = n")
      case True
      with \<open>IntL n \<in> set ord\<close> show ?thesis by simp
    next
      case False
      with that c show ?thesis by simp
    qed
    with a b show ?thesis unfolding eq by simp
  qed
qed

lemma link_repair:
  assumes "link B c d s = Inr s'" "c \<noteq> d"
  shows "repair_step B s s'"
proof -
  from assms(1) have r: "c < length (tensors s)" "d < length (tensors s)"
    "c < length (legs s)" "d < length (legs s)"
    by (auto simp: link_def py_nth_def split: if_splits)
  with assms(1) obtain A_c where Ac: "expand_dims B (tensors s ! c) (length (legs s ! c)) = Inr A_c"
    by (cases "expand_dims B (tensors s ! c) (length (legs s ! c))")
       (simp_all add: link_def py_nth_def Let_def)
  with assms(1) r obtain A_d where Ad: "expand_dims B (tensors s ! d) (length (legs s ! d)) = Inr A_d"
    by (cases "expand_dims B (tensors s ! d) (length (legs s ! d))")
       (simp_all add: link_def py_nth_def Let_def)
  let ?k = "fresh_dim (corder s) 1"
  from assms r Ac Ad have s': "s' = s\<lparr>tensors := (tensors s)[c := A_c, d := A_d],
        legs := (legs s)[c := legs s ! c @ [IntL ?k], d := legs s ! d @ [IntL ?k]],
        corder := corder s @ [IntL ?k],
        calls := calls s @ [ExpandCall (tensors s ! c) (length (legs s ! c)),
                            ExpandCall (tensors s ! d) (length (legs s ! d))]\<rparr>"
    by (simp add: link_def py_nth_def Let_def)
  from fresh_dim_least [of 1 "corder s"] have
    k: "0 < ?k" "IntL ?k \<notin> set (corder s)" "\<forall>m. 0 < m \<and> m < ?k \<longrightarrow> IntL m \<in> set (corder s)"
    by auto
  show ?thesis
    unfolding s' using r assms(2) Ac Ad k by (rule repair_step.intros)
qed

lemma extends_refl: "extends v v"
  by (simp add: extends_def)

lemma extends_trans: "extends v v' \<Longrightarrow> extends v' v'' \<Longrightarrow> extends v v''"
  unfolding extends_def by (metis subset_trans)

lemma repair_step_extends:
  assumes "repair_step B s s'"
  shows "extends (legs s) (legs s')"
  using assms
proof cases
  case (1 c d A_c A_d k)
  have "set (legs s ! i) \<subseteq> set ((legs s)[c := legs s ! c @ [IntL k], d := legs s ! d @ [IntL k]] ! i)"
    if "i < length (legs s)" for i
  proof (cases "i = d")
    case True
    with that show ?thesis by auto
  next
    case False
    show ?thesis
    proof (cases "i = c")
      case True
      with that False show ?thesis by auto
    next
      case nc: False
      with False show ?thesis by simp
    qed
  qed
  then show ?thesis
    unfolding 1(1) extends_def by simp
qed

lemma repairs_extends: "rtranclp (repair_step B) s s' \<Longrightarrow> extends (legs s) (legs s')"
proof (induction rule: rtranclp_induct)
  case base
  show ?case by (rule extends_refl)
next
  case (step y z)
  from extends_trans [OF step.IH repair_step_extends [OF step.hyps(2)]] show ?case .
qed

lemma adjacent_mono: "extends v v' \<Longrightarrow> adjacent v i j \<Longrightarrow> adjacent v' i j"
  unfolding extends_def adjacent_def by fastforce

lemma reach_mono:
  assumes "extends v v'" "rtranclp (adjacent v) i j"
  shows "rtranclp (adjacent v') i j"
  using assms(2)
proof (induction rule: rtranclp_induct)
  case base
  show ?case by simp
next
  case (step y z)
  from adjacent_mono [OF assms(1) step.hyps(2)] have "adjacent v' y z" .
  with step.IH show ?case by (rule rtranclp.rtrancl_into_rtrancl)
qed

lemma link_adjacent:
  assumes "link B c d s = Inr s'"
  shows "adjacent (legs s') c d"
proof -
  from assms have r: "c < length (tensors s)" "d < length (tensors s)"
    "c < length (legs s)" "d < length (legs s)"
    by (auto simp: link_def py_nth_def split: if_splits)
  let ?k = "fresh_dim (corder s) 1"
  let ?v1 = "(legs s)[c := legs s ! c @ [IntL ?k]]"
  from assms r have v': "legs s' = ?v1[d := ?v1 ! d @ [IntL ?k]]"
    by (auto simp: link_def py_nth_def Let_def split: sum.splits)
  have "IntL ?k \<in> set (legs s' ! c)" "IntL ?k \<in> set (legs s' ! d)"
    using r unfolding v' by (auto simp: nth_list_update)
  moreover have "length (legs s') = length (legs s)" unfolding v' by simp
  ultimately show ?thesis using r unfolding adjacent_def by auto
qed

lemma link_loop_repairs:
  "link_loop B pick c comps s = Inr s' \<Longrightarrow> \<forall>K\<in>set comps. c \<notin> set K \<Longrightarrow>
   rtranclp (repair_step B) s s' \<and> (\<forall>K\<in>set comps. \<exists>d\<in>set K. adjacent (legs s') c d)"
proof (induction comps arbitrary: s)
  case Nil
  then show ?case by simp
next
  case (Cons K rest)
  let ?d = "fst (set_pop pick K)"
  from Cons.prems(1) have ne: "K \<noteq> []" by (auto split: if_splits)
  with Cons.prems(1) obtain s1 where l: "link B c ?d s = Inr s1" and
    rec: "link_loop B pick c rest s1 = Inr s'"
    by (cases "link B c ?d s") simp_all
  have dK: "?d \<in> set K" using ne by (rule set_pop_mem)
  with Cons.prems(2) have cd: "c \<noteq> ?d" by auto
  from link_repair [OF l cd] have st: "repair_step B s s1" .
  from Cons.prems(2) have "\<forall>K\<in>set rest. c \<notin> set K" by simp
  from Cons.IH [OF rec this] have
    IH: "rtranclp (repair_step B) s1 s'" "\<forall>K\<in>set rest. \<exists>d\<in>set K. adjacent (legs s') c d"
    by blast+
  from st IH(1) have all: "rtranclp (repair_step B) s s'"
    by (rule converse_rtranclp_into_rtranclp)
  from adjacent_mono [OF repairs_extends [OF IH(1)] link_adjacent [OF l]]
  have "adjacent (legs s') c ?d" .
  with dK IH(2) all show ?case by auto
qed

lemma fresh_chain_mono: "fresh_chain S Ks \<Longrightarrow> T \<subseteq> S \<Longrightarrow> fresh_chain T Ks"
proof (induction Ks arbitrary: S T)
  case Nil
  then show ?case by simp
next
  case (Cons K Ks)
  from Cons.prems have a: "set K \<inter> T = {}" and b: "fresh_chain (S \<union> set K) Ks" by auto
  from Cons.prems(2) have "T \<union> set K \<subseteq> S \<union> set K" by auto
  from Cons.IH [OF b this] a show ?case by simp
qed

lemma fresh_chain_last:
  "fresh_chain S (Ks @ [K]) \<Longrightarrow> \<forall>K'\<in>set Ks. set K' \<inter> set K = {}"
proof (induction Ks arbitrary: S)
  case Nil
  then show ?case by simp
next
  case (Cons K0 Ks)
  from Cons.prems have b: "fresh_chain (S \<union> set K0) (Ks @ [K])" by simp
  from Cons.IH [OF b] have rest: "\<forall>K'\<in>set Ks. set K' \<inter> set K = {}" .
  have "fresh_chain (set K0) (Ks @ [K])"
    by (rule fresh_chain_mono [OF b]) simp
  then have "set K \<inter> set K0 = {}"
  proof (induction Ks arbitrary: K0)
    case Nil
    then show ?case by simp
  next
    case (Cons a Ks)
    from Cons.prems have "fresh_chain (set K0 \<union> set a) (Ks @ [K])" by simp
    then have "fresh_chain (set K0) (Ks @ [K])" by (rule fresh_chain_mono) simp
    from Cons.IH [OF this] show ?case .
  qed
  with rest show ?case by auto
qed

lemma connect_graph_parts:
  assumes "connect_graph B pick s = Inr s'"
  shows "\<exists>comps c. components_loop pick (legs s) [0..<length (tensors s)] [] [] = Inr comps \<and>
           comps \<noteq> [] \<and> c \<in> set (last comps) \<and>
           link_loop B pick c (rev (butlast comps)) s = Inr s'"
proof -
  from assms obtain comps where
    cl: "components_loop pick (legs s) [0..<length (tensors s)] [] [] = Inr comps"
    by (cases "components_loop pick (legs s) [0..<length (tensors s)] [] []")
       (simp_all add: connect_graph_def)
  from assms cl have ne: "comps \<noteq> []" "last comps \<noteq> []"
    by (auto simp: connect_graph_def split: if_splits)
  let ?c = "fst (set_pop pick (last comps))"
  from assms cl ne have ll: "link_loop B pick ?c (rev (butlast comps)) s = Inr s'"
    by (simp add: connect_graph_def)
  have "?c \<in> set (last comps)" using ne(2) by (rule set_pop_mem)
  with cl ne(1) ll show ?thesis by blast
qed

lemma connect_graph_repairs:
  assumes "connect_graph B pick s = Inr s'"
  shows "rtranclp (repair_step B) s s'"
proof -
  from connect_graph_parts [OF assms] obtain comps c where
    p: "components_loop pick (legs s) [0..<length (tensors s)] [] [] = Inr comps"
       "comps \<noteq> []" "c \<in> set (last comps)"
       "link_loop B pick c (rev (butlast comps)) s = Inr s'"
    by blast
  from components_loop_result [OF p(1)] obtain new where
    nall: "comps = [] @ new \<and> (\<forall>K\<in>set new. component_ok (legs s) K) \<and>
         set [0..<length (tensors s)] \<subseteq> \<Union> (set ` set new) \<and> fresh_chain (set []) new"
    by auto
  then have fc: "fresh_chain {} comps" by simp
  from p(2) have "comps = butlast comps @ [last comps]" by simp
  with fc have "fresh_chain {} (butlast comps @ [last comps])" by simp
  from fresh_chain_last [OF this] p(3) have "\<forall>K\<in>set (rev (butlast comps)). c \<notin> set K"
    by auto
  from link_loop_repairs [OF p(4) this] show ?thesis by blast
qed

lemma connect_graph_connected:
  assumes len: "length (tensors s) = length (legs s)"
    and cg: "connect_graph B pick s = Inr s'"
  shows "connected (legs s')"
proof -
  let ?v = "legs s" and ?v' = "legs s'"
  from connect_graph_parts [OF cg] obtain comps c where
    p: "components_loop pick ?v [0..<length (tensors s)] [] [] = Inr comps"
       "comps \<noteq> []" "c \<in> set (last comps)"
       "link_loop B pick c (rev (butlast comps)) s = Inr s'"
    by blast
  from components_loop_result [OF p(1)] obtain new where
    nall: "comps = [] @ new \<and> (\<forall>K\<in>set new. component_ok ?v K) \<and>
         set [0..<length (tensors s)] \<subseteq> \<Union> (set ` set new) \<and> fresh_chain (set []) new"
    by auto
  then have ok: "\<forall>K\<in>set comps. component_ok ?v K"
    and cover: "set [0..<length (tensors s)] \<subseteq> \<Union> (set ` set comps)"
    and fc: "fresh_chain {} comps" by simp_all
  from p(2) have split: "comps = butlast comps @ [last comps]" by simp
  with fc have "fresh_chain {} (butlast comps @ [last comps])" by simp
  from fresh_chain_last [OF this] p(3) have "\<forall>K\<in>set (rev (butlast comps)). c \<notin> set K"
    by auto
  from link_loop_repairs [OF p(4) this] have
    rs: "rtranclp (repair_step B) s s'" and
    adj: "\<forall>K\<in>set (rev (butlast comps)). \<exists>d\<in>set K. adjacent ?v' c d" by blast+
  from repairs_extends [OF rs] have ext: "extends ?v ?v'" .
  then have len': "length ?v' = length ?v" by (simp add: extends_def)
  have toc: "rtranclp (adjacent ?v') x c" if "x < length ?v'" for x
  proof -
    from that len len' cover obtain K where K: "K \<in> set comps" "x \<in> set K" by fastforce
    from ok K(1) obtain r where r: "\<forall>y\<in>set K. rtranclp (adjacent ?v) r y"
      unfolding component_ok_def by blast
    from r K(2) have rx: "rtranclp (adjacent ?v) x r" by (simp add: reach_sym)
    have "\<exists>y\<in>set K. rtranclp (adjacent ?v') y c"
    proof (cases "K = last comps")
      case True
      with p(3) show ?thesis by blast
    next
      case False
      with K(1) split have "K \<in> set (butlast comps)"
        by (metis Un_iff empty_iff empty_set set_ConsD set_append)
      with adj obtain d where d: "d \<in> set K" "adjacent ?v' c d" by auto
      from d(2) have "adjacent ?v' d c" by (rule adjacent_sym)
      then have "rtranclp (adjacent ?v') d c" by blast
      with d(1) show ?thesis by blast
    qed
    then obtain y where y: "y \<in> set K" "rtranclp (adjacent ?v') y c" by blast
    from r y(1) have "rtranclp (adjacent ?v) r y" by blast
    with rx have "rtranclp (adjacent ?v) x y" by (rule reach_trans)
    from reach_mono [OF ext this] y(2) show ?thesis by (rule reach_trans)
  qed
  show ?thesis
    unfolding connected_def
  proof (intro allI impI)
    fix i j assume "i < length ?v'" "j < length ?v'"
    then have "rtranclp (adjacent ?v') i c" "rtranclp (adjacent ?v') c j"
      using toc reach_sym by blast+
    then show "rtranclp (adjacent ?v') i j" by (rule reach_trans)
  qed
qed

lemma repair_step_aligned:
  assumes "repair_step B s s'" "backend_contract B" "aligned B (legs s) (tensors s)"
  shows "aligned B (legs s') (tensors s')"
  using assms(1)
proof cases
  case (1 c d A_c A_d k)
  from assms(2) 1(7,8) have r: "rank B A_c = rank B (tensors s ! c) + 1"
    "rank B A_d = rank B (tensors s ! d) + 1"
    unfolding backend_contract_def by blast+
  from assms(3) 1(4,5) have l: "length (legs s ! c) = rank B (tensors s ! c)"
    "length (legs s ! d) = rank B (tensors s ! d)"
    by (simp_all add: aligned_def list_all2_conv_all_nth)
  have pc: "length (legs s ! c @ [IntL k]) = rank B A_c" using r(1) l(1) by simp
  have pd: "length (legs s ! d @ [IntL k]) = rank B A_d" using r(2) l(2) by simp
  from assms(3) have a0: "list_all2 (\<lambda>inds A. length inds = rank B A) (legs s) (tensors s)"
    by (simp add: aligned_def)
  from list_all2_update_cong [OF a0 pc, of c]
  have a1: "list_all2 (\<lambda>inds A. length inds = rank B A)
          ((legs s)[c := legs s ! c @ [IntL k]]) ((tensors s)[c := A_c])" .
  from list_all2_update_cong [OF a1 pd, of d]
  have "list_all2 (\<lambda>inds A. length inds = rank B A)
          ((legs s)[c := legs s ! c @ [IntL k], d := legs s ! d @ [IntL k]])
          ((tensors s)[c := A_c, d := A_d])" .
  then show ?thesis unfolding 1(1) aligned_def by simp
qed

lemma repairs_aligned:
  assumes "rtranclp (repair_step B) s s'" "backend_contract B" "aligned B (legs s) (tensors s)"
  shows "aligned B (legs s') (tensors s')"
  using assms(1,3)
proof (induction rule: rtranclp_induct)
  case base
  then show ?case .
next
  case (step y z)
  from repair_step_aligned [OF step.hyps(2) assms(2) step.IH [OF step.prems]] show ?case .
qed

lemma run_check:
  "do_check_indices shape_backend [[2, 3], [4, 5], [6]]
     [[IntL (-1), IntL (-2)], [IntL (-3), IntL (-4)], [IntL (-5)]] []
     [IntL (-1), IntL (-2), IntL (-3), IntL (-4), IntL (-5)] = Inr True"
  by code_simp

lemma run_repair: "connect_graph shape_backend hd net_apart = Inr net_linked"
  by code_simp

lemma run_step: "iteration shape_backend id net_linked (IntL 1) = Inr net_step"
  by code_simp

lemma run_loop: "ncon_loop shape_backend id net_linked = Inr net_done"
  by code_simp

text \<open>
  C4. After \<open>connect_graph\<close> returns on a network state (as many leg lists as
  tensors), the tensor graph is connected, and what it did is a sequence of
  insertions of a synthetic label: each label is the smallest positive integer
  not in \<open>order\<close> at that time, is appended as the last entry of the leg lists of
  the two tensors concerned, after the backend's axis insertion was applied to
  both tensors at the end of their leg lists, and is appended to the end of
  \<open>order\<close>.
\<close>

theorem connect_graph_connects:
  "length (tensors s) = length (legs s) \<and> connect_graph B pick s = Inr s' \<longrightarrow>
     connected (legs s') \<and> rtranclp (repair_step B) s s'"
  using connect_graph_connected connect_graph_repairs by blast

theorem connect_graph_connects_witness:
  "length (tensors net_apart) = length (legs net_apart) \<and>
   connect_graph shape_backend hd net_apart = Inr net_linked \<and>
   connected (legs net_linked) \<and> rtranclp (repair_step shape_backend) net_apart net_linked"
proof -
  have "length (tensors net_apart) = length (legs net_apart)" by (simp add: net_apart_def)
  with run_repair connect_graph_connects [of net_apart shape_backend hd net_linked]
  show ?thesis by simp
qed

lemma length_remove_axes:
  assumes "distinct ps" "list_all (\<lambda>i. i < length A) ps"
  shows "length (remove_axes A ps) + length ps = length A"
proof -
  let ?in = "filter (\<lambda>i. i \<in> set ps) [0..<length A]"
  have "set ?in = set ps" using assms(2) by (auto simp: list_all_iff)
  moreover have "distinct ?in" by simp
  ultimately have "length ?in = length ps"
    using assms(1) by (metis distinct_card)
  moreover have "length (filter (\<lambda>i. i \<notin> set ps) [0..<length A]) + length ?in = length A"
    using sum_length_filter_compl [of "\<lambda>i. i \<notin> set ps" "[0..<length A]"] by simp
  ultimately show ?thesis by (simp add: remove_axes_def)
qed

lemma shape_backend_contract: "backend_contract shape_backend"
  unfolding backend_contract_def
proof (intro conjI allI impI)
  fix A A' p1 p2 C
  assume c: "con shape_backend A A' (p1, p2) = Inr C"
  then have ok: "length p1 = length p2" "distinct p1" "distinct p2"
    "list_all (\<lambda>i. i < length A) p1" "list_all (\<lambda>i. i < length A') p2"
    and C: "C = remove_axes A p1 @ remove_axes A' p2"
    by (auto simp: shape_backend_def shape_con_def split: if_splits)
  from ok(1) show "length p1 = length p2" .
  from length_remove_axes [OF ok(2,4)] length_remove_axes [OF ok(3,5)] ok(1)
  show "rank shape_backend C + 2 * length p1 = rank shape_backend A + rank shape_backend A'"
    by (simp add: C rank_def shape_backend_def)
next
  fix A i j C
  assume "trace shape_backend A i j = Inr C"
  then have ok: "i < length A" "j < length A" "i \<noteq> j" and C: "C = remove_axes A [i, j]"
    by (auto simp: shape_backend_def shape_trace_def split: if_splits)
  from ok have "distinct [i, j]" "list_all (\<lambda>k. k < length A) [i, j]" by simp_all
  from length_remove_axes [OF this]
  show "rank shape_backend C + 2 = rank shape_backend A"
    by (simp add: C rank_def shape_backend_def)
next
  fix A ax C
  assume "expand_dims shape_backend A ax = Inr C"
  then show "rank shape_backend C = rank shape_backend A + 1"
    by (auto simp: shape_backend_def shape_expand_dims_def rank_def split: if_splits)
qed

lemma validated_inv:
  assumes "do_check_indices B L v ord forder = Inr True"
  shows "network_inv B \<lparr>tensors = L, legs = v, corder = ord, calls = cs\<rparr>"
proof -
  from assms have "\<not> isl (do_check_indices B L v ord forder)" by simp
  then have "\<not> malformed B L v ord forder"
    using validator_verdict by blast
  then show ?thesis by (simp add: malformed_def network_inv_def)
qed

text \<open>
  C3. The invariant of the network state (as many leg lists as tensors, each
  leg list as long as the rank of its tensor) holds for an input that passed
  validation, holds after \<open>connect_graph\<close> when it held before, and is preserved
  by every iteration of the loop, for a backend that keeps its contracts on
  ranks. An iteration appends one new tensor and one new leg list and then
  deletes the same positions from both lists.
\<close>

theorem network_invariant:
  "(do_check_indices B L v ord forder = Inr True \<longrightarrow>
      network_inv B \<lparr>tensors = L, legs = v, corder = ord, calls = cs\<rparr>) \<and>
   (backend_contract B \<and> network_inv B s \<and> connect_graph B pick s = Inr s' \<longrightarrow>
      network_inv B s') \<and>
   (backend_contract B \<and> network_inv B s \<and> iteration B listing s idx = Inr s'' \<longrightarrow>
      network_inv B s'' \<and>
      (\<exists>tcon new_A newv.
         delete_all (rev (sort tcon)) (tensors s @ [new_A]) (legs s @ [newv])
           = Inr (tensors s'', legs s'')))"
proof (intro conjI impI)
  assume "do_check_indices B L v ord forder = Inr True"
  then show "network_inv B \<lparr>tensors = L, legs = v, corder = ord, calls = cs\<rparr>"
    by (rule validated_inv)
next
  assume h: "backend_contract B \<and> network_inv B s \<and> connect_graph B pick s = Inr s'"
  then have "connect_graph B pick s = Inr s'" by simp
  then have "rtranclp (repair_step B) s s'" by (rule connect_graph_repairs)
  from repairs_aligned [OF this] h show "network_inv B s'"
    by (simp add: network_inv_aligned)
next
  assume h: "backend_contract B \<and> network_inv B s \<and> iteration B listing s idx = Inr s''"
  then have "aligned B (legs s) (tensors s)" "backend_contract B" "iteration B listing s idx = Inr s''"
    by (simp_all add: network_inv_aligned)
  from iteration_aligned [OF this] show "network_inv B s''"
    by (simp add: network_inv_aligned)
next
  assume h: "backend_contract B \<and> network_inv B s \<and> iteration B listing s idx = Inr s''"
  then have "iteration B listing s idx = Inr s''" by simp
  then obtain tcon new_A newv where
    "delete_all (rev (sort tcon)) (tensors s @ [new_A]) (legs s @ [newv]) = Inr (tensors s'', legs s'')"
    by (rule iteration_parts)
  then show "\<exists>tcon new_A newv.
         delete_all (rev (sort tcon)) (tensors s @ [new_A]) (legs s @ [newv])
           = Inr (tensors s'', legs s'')" by blast
qed

theorem network_invariant_witness:
  "backend_contract shape_backend \<and> network_inv shape_backend net_apart \<and>
   connect_graph shape_backend hd net_apart = Inr net_linked \<and>
   network_inv shape_backend net_linked \<and>
   iteration shape_backend id net_linked (IntL 1) = Inr net_step \<and>
   network_inv shape_backend net_step"
proof -
  note a = network_invariant [of shape_backend "[[2, 3], [4, 5], [6]]"
      "[[IntL (-1), IntL (-2)], [IntL (-3), IntL (-4)], [IntL (-5)]]" "[]"
      "[IntL (-1), IntL (-2), IntL (-3), IntL (-4), IntL (-5)]" "[]"
      net_apart hd net_linked id "IntL 1" net_step]
  note b = network_invariant [of shape_backend "[[2, 3], [4, 5], [6]]"
      "[[IntL (-1), IntL (-2)], [IntL (-3), IntL (-4)], [IntL (-5)]]" "[]"
      "[IntL (-1), IntL (-2), IntL (-3), IntL (-4), IntL (-5)]" "[]"
      net_linked hd net_linked id "IntL 1" net_step]
  from a run_check have i0: "network_inv shape_backend net_apart"
    by (simp add: net_apart_def)
  with a run_repair shape_backend_contract have i1: "network_inv shape_backend net_linked"
    by simp
  with b run_step shape_backend_contract have i2: "network_inv shape_backend net_step"
    by simp
  from i0 i1 i2 run_repair run_step shape_backend_contract show ?thesis by simp
qed

subsection \<open>Scheduler loop\<close>

lemma finite_holders [simp]: "finite (holders v x)"
  by (simp add: holders_def)

lemma reach_distinct_edge:
  "rtranclp r a b \<Longrightarrow> a \<noteq> b \<Longrightarrow> \<exists>x y. x \<noteq> y \<and> r x y"
proof (induction rule: rtranclp_induct)
  case base
  then show ?case by simp
next
  case (step y z)
  show ?case
  proof (cases "y = z")
    case True
    with step show ?thesis by simp
  next
    case False
    with step.hyps(2) show ?thesis by blast
  qed
qed

lemma schedulable_exit:
  assumes "schedulable v []"
  shows "length v = 1"
proof (rule ccontr)
  assume ne: "length v \<noteq> 1"
  from assms have v: "v \<noteq> []" and con: "connected v"
    and two: "\<forall>x. card (holders v x) \<le> 2"
    and listed: "\<forall>x. card (holders v x) \<noteq> 2"
    by (simp_all add: schedulable_def)
  from v ne have l: "0 < length v" "1 < length v" by (cases v; simp)+
  with con have "rtranclp (adjacent v) 0 1" unfolding connected_def by blast
  from reach_distinct_edge [OF this] obtain x y where xy: "x \<noteq> y" "adjacent v x y" by auto
  then obtain l where l: "x < length v" "y < length v" "l \<in> set (v ! x)" "l \<in> set (v ! y)"
    unfolding adjacent_def by blast
  then have "{x, y} \<subseteq> holders v l" by (simp add: holders_def)
  then have "card {x, y} \<le> card (holders v l)" by (intro card_mono) simp_all
  with xy(1) have "2 \<le> card (holders v l)" by simp
  with two listed show False by (metis le_antisym)
qed

text \<open>Connectivity carries over along a relation between the vertices of two graphs.\<close>

lemma connected_transfer:
  assumes con: "connected v"
    and total: "\<And>i. i < length v \<Longrightarrow> \<exists>k. R i k"
    and onto: "\<And>k. k < length v' \<Longrightarrow> \<exists>i<length v. R i k"
    and func: "\<And>i k k'. R i k \<Longrightarrow> R i k' \<Longrightarrow> k = k'"
    and hom: "\<And>i i' k k'. adjacent v i i' \<Longrightarrow> R i k \<Longrightarrow> R i' k' \<Longrightarrow> k = k' \<or> adjacent v' k k'"
  shows "connected v'"
proof -
  have path: "rtranclp (adjacent v') k k'" if "rtranclp (adjacent v) i i'" "R i k" "R i' k'" "i < length v"
    for i i' k k'
    using that
  proof (induction arbitrary: k' rule: rtranclp_induct)
    case base
    from func [OF base(1,2)] show ?case by simp
  next
    case (step y z)
    from step.hyps(2) have "y < length v" by (simp add: adjacent_def)
    from total [OF this] obtain ky where ky: "R y ky" by blast
    from step.IH [OF step.prems(1) ky step.prems(3)] have "rtranclp (adjacent v') k ky" .
    moreover from hom [OF step.hyps(2) ky step.prems(2)] have "ky = k' \<or> adjacent v' ky k'" .
    ultimately show ?case by auto
  qed
  show ?thesis
    unfolding connected_def
  proof (intro allI impI)
    fix k k' assume "k < length v'" "k' < length v'"
    with onto obtain i i' where i: "i < length v" "R i k" "i' < length v" "R i' k'" by blast
    from con i(1,3) have "rtranclp (adjacent v) i i'" unfolding connected_def by blast
    from path [OF this i(2,4,1)] show "rtranclp (adjacent v') k k'" .
  qed
qed

lemma holders_merged:
  assumes js: "distinct js" "set js = {..<length v} - T"
    and v': "v' = map (\<lambda>i. v ! i) js @ [newv]"
  shows "card (holders v' x) = card (holders v x - T) + (if x \<in> set newv then 1 else 0)"
proof -
  let ?A = "{k. k < length js \<and> x \<in> set (v ! (js ! k))}"
  let ?N = "if x \<in> set newv then {length js} else {}"
  have h: "holders v' x = ?A \<union> ?N"
  proof (rule set_eqI)
    fix k
    show "k \<in> holders v' x \<longleftrightarrow> k \<in> ?A \<union> ?N"
    proof (cases "k < length js")
      case True
      then show ?thesis by (auto simp: holders_def v' nth_append)
    next
      case False
      then show ?thesis by (auto simp: holders_def v' nth_append less_Suc_eq)
    qed
  qed
  have inj: "inj_on (\<lambda>k. js ! k) ?A"
    using js(1) by (auto simp: inj_on_def nth_eq_iff_index_eq)
  have img: "(\<lambda>k. js ! k) ` ?A = holders v x - T"
  proof (rule set_eqI)
    fix i
    show "i \<in> (\<lambda>k. js ! k) ` ?A \<longleftrightarrow> i \<in> holders v x - T"
    proof
      assume "i \<in> (\<lambda>k. js ! k) ` ?A"
      then obtain k where k: "k < length js" "x \<in> set (v ! (js ! k))" "i = js ! k" by auto
      then have "i \<in> set js" by simp
      with js(2) k show "i \<in> holders v x - T" by (auto simp: holders_def)
    next
      assume "i \<in> holders v x - T"
      then have i: "i < length v" "x \<in> set (v ! i)" "i \<notin> T" by (auto simp: holders_def)
      with js(2) have "i \<in> set js" by auto
      then obtain k where "k < length js" "js ! k = i" by (auto simp: in_set_conv_nth)
      with i(2) show "i \<in> (\<lambda>k. js ! k) ` ?A" by force
    qed
  qed
  have cA: "card ?A = card (holders v x - T)"
    using card_image [OF inj] img by simp
  have fin: "finite ?A" by simp
  have disj: "?A \<inter> ?N = {}" by auto
  have "card (?A \<union> ?N) = card ?A + card ?N"
    by (rule card_Un_disjoint [OF fin _ disj]) simp
  with h cA show ?thesis by simp
qed

lemma merge_schedulable:
  assumes sch: "schedulable v ord"
    and T: "T \<subseteq> {..<length v}" "T \<noteq> {}"
    and js: "distinct js" "set js = {..<length v} - T"
    and v': "v' = map (\<lambda>i. v ! i) js @ [newv]"
    and newv: "set newv = (\<Union>i\<in>T. set (v ! i)) - set icon"
    and icon: "\<forall>l\<in>set icon. holders v l \<subseteq> T"
  shows "schedulable v' (renew_order ord icon)"
proof -
  from sch have con: "connected v" and two: "\<And>x. card (holders v x) \<le> 2"
    and listed: "\<And>x. card (holders v x) = 2 \<Longrightarrow> x \<in> set ord"
    by (simp_all add: schedulable_def)
  note cnt = holders_merged [OF js v']
  have touch: "holders v x \<inter> T \<noteq> {}" if "x \<in> set newv" for x
  proof -
    from that newv obtain i where "i \<in> T" "x \<in> set (v ! i)" by auto
    with T(1) have "i \<in> holders v x" by (auto simp: holders_def)
    with \<open>i \<in> T\<close> show ?thesis by blast
  qed
  have less: "card (holders v x - T) < card (holders v x)" if "holders v x \<inter> T \<noteq> {}" for x
    by (rule psubset_card_mono) (use that in auto)
  have le: "card (holders v x - T) \<le> card (holders v x)" for x
    by (rule card_mono) auto
  have two': "card (holders v' x) \<le> 2" for x
  proof (cases "x \<in> set newv")
    case True
    from less [OF touch [OF True]] two [of x] have "card (holders v x - T) \<le> 1" by simp
    with True show ?thesis by (simp add: cnt)
  next
    case False
    with le [of x] two [of x] show ?thesis by (simp add: cnt)
  qed
  have listed': "x \<in> set (renew_order ord icon)" if c2: "card (holders v' x) = 2" for x
  proof -
    have big: "card (holders v x) = 2 \<and> x \<notin> set icon"
    proof (cases "x \<in> set newv")
      case True
      with c2 have "card (holders v x - T) = 1" by (simp add: cnt)
      with less [OF touch [OF True]] two [of x] have "card (holders v x) = 2" by simp
      moreover from True newv have "x \<notin> set icon" by auto
      ultimately show ?thesis by simp
    next
      case False
      with c2 have c: "card (holders v x - T) = 2" by (simp add: cnt)
      with le [of x] two [of x] have "card (holders v x) = 2" by simp
      moreover have "x \<notin> set icon"
      proof
        assume "x \<in> set icon"
        with icon have "holders v x - T = {}" by auto
        with c show False by simp
      qed
      ultimately show ?thesis by simp
    qed
    with listed [of x] show ?thesis by (simp add: renew_order_def)
  qed
  define R where "R i k \<longleftrightarrow> (i \<in> T \<and> k = length js) \<or> (k < length js \<and> js ! k = i)" for i k
  have notT: "js ! k \<notin> T" "js ! k < length v" if "k < length js" for k
  proof -
    from that have "js ! k \<in> set js" by simp
    with js(2) show "js ! k \<notin> T" "js ! k < length v" by auto
  qed
  have lv': "length v' = Suc (length js)" by (simp add: v')
  have nth_old: "v' ! k = v ! (js ! k)" if "k < length js" for k
    using that by (simp add: v' nth_append)
  have nth_new: "v' ! length js = newv" by (simp add: v' nth_append)
  have "connected v'"
  proof (rule connected_transfer [OF con, of R])
    fix i assume i: "i < length v"
    show "\<exists>k. R i k"
    proof (cases "i \<in> T")
      case True
      then show ?thesis unfolding R_def by blast
    next
      case False
      with i js(2) have "i \<in> set js" by auto
      then obtain k where "k < length js" "js ! k = i" by (auto simp: in_set_conv_nth)
      then show ?thesis unfolding R_def by blast
    qed
  next
    fix k assume k: "k < length v'"
    show "\<exists>i<length v. R i k"
    proof (cases "k < length js")
      case True
      with notT(2) [OF True] show ?thesis unfolding R_def by blast
    next
      case False
      with k lv' have "k = length js" by simp
      moreover from T obtain i where "i \<in> T" "i < length v" by auto
      ultimately show ?thesis unfolding R_def by blast
    qed
  next
    fix i k k' assume "R i k" "R i k'"
    then show "k = k'"
      unfolding R_def using notT(1) js(1) by (auto simp: nth_eq_iff_index_eq)
  next
    fix i i' k k' assume adj: "adjacent v i i'" and Rk: "R i k" and Rk': "R i' k'"
    from adj obtain l where l: "i < length v" "i' < length v" "l \<in> set (v ! i)" "l \<in> set (v ! i')"
      unfolding adjacent_def by blast
    have keep: "l \<in> set newv" if "a \<in> T" "l \<in> set (v ! a)" "b \<notin> T" "b < length v" "l \<in> set (v ! b)"
      for a b
    proof -
      from that(3,4,5) have "b \<in> holders v l - T" by (simp add: holders_def)
      with icon have "l \<notin> set icon" by blast
      with that(1,2) newv show ?thesis by auto
    qed
    show "k = k' \<or> adjacent v' k k'"
    proof (cases "i \<in> T")
      case iT: True
      with Rk notT(1) have k: "k = length js" unfolding R_def by auto
      show ?thesis
      proof (cases "i' \<in> T")
        case True
        with Rk' notT(1) have "k' = length js" unfolding R_def by auto
        with k show ?thesis by simp
      next
        case False
        with Rk' have k': "k' < length js" "js ! k' = i'" unfolding R_def by auto
        from keep [OF iT l(3) False l(2,4)] have "l \<in> set newv" .
        with l(4) k k' show ?thesis
          unfolding adjacent_def by (auto simp: lv' nth_old nth_new)
      qed
    next
      case iT: False
      with Rk have k: "k < length js" "js ! k = i" unfolding R_def by auto
      show ?thesis
      proof (cases "i' \<in> T")
        case True
        with Rk' notT(1) have k': "k' = length js" unfolding R_def by auto
        from keep [OF True l(4) iT l(1,3)] have "l \<in> set newv" .
        with l(3) k k' show ?thesis
          unfolding adjacent_def by (auto simp: lv' nth_old nth_new)
      next
        case False
        with Rk' have k': "k' < length js" "js ! k' = i'" unfolding R_def by auto
        with k l(3,4) show ?thesis
          unfolding adjacent_def by (auto simp: lv' nth_old)
      qed
    qed
  qed
  moreover have "v' \<noteq> []" by (simp add: v')
  ultimately show ?thesis
    unfolding schedulable_def using two' listed' by blast
qed

lemma delete_one:
  assumes "delete_all [a] L w = Inr (L', v')" "w = v @ [newv]" "a < length v"
  shows "v' = map (\<lambda>i. v ! i) ([0..<a] @ [Suc a..<length v]) @ [newv]"
proof -
  from assms have "v' = take a w @ drop (Suc a) w"
    by (auto simp: py_del_def split: sum.splits if_splits)
  also have "\<dots> = take a v @ drop (Suc a) v @ [newv]"
    using assms(2,3) by simp
  also have "\<dots> = map (\<lambda>i. v ! i) ([0..<a] @ [Suc a..<length v]) @ [newv]"
    using assms(3) by (simp add: map_nth_upt)
  finally show ?thesis .
qed

lemma delete_two:
  assumes "delete_all [b, a] L w = Inr (L', v')" "w = v @ [newv]" "a < b" "b < length v"
  shows "v' = map (\<lambda>i. v ! i) ([0..<a] @ [Suc a..<b] @ [Suc b..<length v]) @ [newv]"
proof -
  let ?w1 = "take b w @ drop (Suc b) w"
  from assms(1) have "v' = take a ?w1 @ drop (Suc a) ?w1"
    by (auto simp: py_del_def split: sum.splits if_splits)
  moreover have "?w1 = take b v @ drop (Suc b) v @ [newv]"
    using assms(2,4) by simp
  moreover have "take a (take b v @ drop (Suc b) v @ [newv]) = take a v"
    using assms(3,4) by (simp add: min_def)
  moreover have "drop (Suc a) (take b v @ drop (Suc b) v @ [newv])
        = drop (Suc a) (take b v) @ drop (Suc b) v @ [newv]"
    using assms(3,4) by simp
  ultimately have "v' = take a v @ drop (Suc a) (take b v) @ drop (Suc b) v @ [newv]"
    by simp
  also have "\<dots> = map (\<lambda>i. v ! i) ([0..<a] @ [Suc a..<b] @ [Suc b..<length v]) @ [newv]"
    using assms(3,4) by (simp add: map_nth_upt)
  finally show ?thesis .
qed

lemma holders_two:
  assumes "card (holders v l) \<le> 2" "a \<in> holders v l" "b \<in> holders v l" "a \<noteq> b"
  shows "holders v l = {a, b}"
proof -
  have sub: "{a, b} \<subseteq> holders v l" using assms(2,3) by simp
  have "card {a, b} = 2" using assms(4) by simp
  with assms(1) have "card (holders v l) \<le> card {a, b}" by simp
  from card_seteq [OF finite_holders sub this] show ?thesis by simp
qed

lemma iteration_schedulable:
  assumes it: "iteration B listing s idx = Inr s'" and sch: "schedulable (legs s) (corder s)"
  shows "schedulable (legs s') (corder s')"
proof -
  let ?v = "legs s"
  let ?n = "length ?v"
  from it obtain tcon icon pos1 pos2 new_A newv where
    tcon: "get_tcon ?v idx = Inr tcon" and
    icon: "(if length tcon = 1 then Inr [idx] else get_icon listing ?v tcon) = Inr icon" and
    nv: "find_newv ?v tcon icon = Inr newv" and
    del: "delete_all (rev (sort tcon)) (tensors s @ [new_A]) (?v @ [newv]) = Inr (tensors s', legs s')" and
    ord: "corder s' = renew_order (corder s) icon"
    by (rule iteration_parts)
  from sch have two: "\<And>x. card (holders ?v x) \<le> 2" by (simp add: schedulable_def)
  have hold: "set tcon = holders ?v idx"
    using get_tcon_set [OF tcon] by (simp add: holders_def)
  show ?thesis
  proof (cases "length tcon = 1")
    case True
    then obtain a where a: "tcon = [a]" using length_one by blast
    from hold a have ha: "holders ?v idx = {a}" by simp
    then have al: "a < ?n" by (auto simp: holders_def)
    from icon True have ic: "icon = [idx]" by simp
    from nv a al ic have newv: "newv = filter (\<lambda>x. x \<noteq> idx) (?v ! a)"
      by (simp add: find_newv_def py_nth_def)
    from del a have "delete_all [a] (tensors s @ [new_A]) (?v @ [newv]) = Inr (tensors s', legs s')"
      by simp
    from delete_one [OF this refl al]
    have v': "legs s' = map (\<lambda>i. ?v ! i) ([0..<a] @ [Suc a..<?n]) @ [newv]" .
    have "schedulable (legs s') (renew_order (corder s) icon)"
    proof (rule merge_schedulable [OF sch _ _ _ _ v', of "{a}"])
      show "{a} \<subseteq> {..<?n}" using al by simp
      show "{a} \<noteq> {}" by simp
      show "distinct ([0..<a] @ [Suc a..<?n])" by auto
      show "set ([0..<a] @ [Suc a..<?n]) = {..<?n} - {a}" using al by auto
      show "set newv = (\<Union>i\<in>{a}. set (?v ! i)) - set icon" by (auto simp: newv ic)
      show "\<forall>l\<in>set icon. holders ?v l \<subseteq> {a}" using ha by (simp add: ic)
    qed
    with ord show ?thesis by simp
  next
    case False
    with get_tcon_mem(2) [OF tcon] have "length tcon = 2" by simp
    then obtain a b where ab: "tcon = [a, b]" using length_two by blast
    have "sorted (filter (\<lambda>i. idx \<in> set (?v ! i)) [0..<?n])"
      "distinct (filter (\<lambda>i. idx \<in> set (?v ! i)) [0..<?n])"
      by (simp_all add: sorted_wrt_filter)
    then have "sorted tcon" "distinct tcon"
      unfolding get_tcon_mem(1) [OF tcon, symmetric] .
    with ab have lt: "a < b" by auto
    from hold ab have hab: "holders ?v idx = {a, b}" by simp
    then have al: "a < ?n" "b < ?n" by (auto simp: holders_def)
    from icon False have "get_icon listing ?v tcon = Inr icon" by simp
    then have ic: "icon = set_to_list listing (filter (\<lambda>x. x \<in> set (?v ! b)) (?v ! a))"
      using ab al by (simp add: get_icon_def py_nth_def)
    from nv ab al have newv: "newv = filter (\<lambda>x. x \<notin> set icon) (?v ! a @ ?v ! b)"
      by (simp add: find_newv_def py_nth_def)
    from lt have "rev (sort [a, b]) = [b, a]" by simp
    with del ab have
      "delete_all [b, a] (tensors s @ [new_A]) (?v @ [newv]) = Inr (tensors s', legs s')"
      by simp
    from delete_two [OF this refl lt al(2)]
    have v': "legs s' = map (\<lambda>i. ?v ! i) ([0..<a] @ [Suc a..<b] @ [Suc b..<?n]) @ [newv]" .
    have "schedulable (legs s') (renew_order (corder s) icon)"
    proof (rule merge_schedulable [OF sch _ _ _ _ v', of "{a, b}"])
      show "{a, b} \<subseteq> {..<?n}" using al by simp
      show "{a, b} \<noteq> {}" by simp
      show "distinct ([0..<a] @ [Suc a..<b] @ [Suc b..<?n])" using lt by auto
      show "set ([0..<a] @ [Suc a..<b] @ [Suc b..<?n]) = {..<?n} - {a, b}"
        using al lt by auto
      show "set newv = (\<Union>i\<in>{a, b}. set (?v ! i)) - set icon" by (auto simp: newv)
      show "\<forall>l\<in>set icon. holders ?v l \<subseteq> {a, b}"
      proof
        fix l assume "l \<in> set icon"
        then have "l \<in> set (?v ! a)" "l \<in> set (?v ! b)" by (simp_all add: ic)
        with al have "a \<in> holders ?v l" "b \<in> holders ?v l" by (simp_all add: holders_def)
        from holders_two [OF two this] lt show "holders ?v l \<subseteq> {a, b}" by simp
      qed
    qed
    with ord show ?thesis by simp
  qed
qed

lemma delete_all_lengths:
  "delete_all ps L v = Inr (L', v') \<Longrightarrow> length L = length v \<Longrightarrow> length L' = length v'"
proof (induction ps arbitrary: L v)
  case Nil
  then show ?case by simp
next
  case (Cons i ps)
  from Cons.prems(1) obtain L1 v1 where
    d: "py_del L i = Inr L1" "py_del v i = Inr v1" "delete_all ps L1 v1 = Inr (L', v')"
    by (auto split: sum.splits)
  from d(1,2) Cons.prems(2) have "length L1 = length v1"
    by (auto simp: py_del_def split: if_splits)
  from Cons.IH [OF d(3) this] show ?case .
qed

lemma iteration_lengths:
  assumes "iteration B listing s idx = Inr s'" "length (tensors s) = length (legs s)"
  shows "length (tensors s') = length (legs s')"
proof -
  from assms(1) obtain tcon new_A newv where
    "delete_all (rev (sort tcon)) (tensors s @ [new_A]) (legs s @ [newv]) = Inr (tensors s', legs s')"
    by (rule iteration_parts)
  from delete_all_lengths [OF this] assms(2) show ?thesis by simp
qed

lemma ncon_loop_exit:
  "ncon_loop B listing s = Inr s' \<Longrightarrow> schedulable (legs s) (corder s) \<Longrightarrow>
   length (tensors s) = length (legs s) \<Longrightarrow>
   corder s' = [] \<and> length (legs s') = 1 \<and> length (tensors s') = 1"
proof (induction B listing s rule: ncon_loop.induct)
  case (1 B listing s)
  show ?case
  proof (cases "corder s")
    case Nil
    with "1.prems"(1) have "s' = s" by (simp add: ncon_loop.simps)
    with Nil "1.prems"(2,3) schedulable_exit [of "legs s"] show ?thesis by simp
  next
    case (Cons idx rest)
    with "1.prems"(1) obtain s1 where it: "iteration B listing s idx = Inr s1"
      and rec: "ncon_loop B listing s1 = Inr s'"
      by (subst (asm) ncon_loop.simps) (auto split: sum.splits)
    from "1.IH" [OF Cons it rec iteration_schedulable [OF it "1.prems"(2)]
        iteration_lengths [OF it "1.prems"(3)]]
    show ?thesis .
  qed
qed

lemma holder_count_card: "holder_count v x = card (holders v x)"
proof -
  have "filter (\<lambda>inds. x \<in> set inds) (map (\<lambda>i. v ! i) [0..<length v])
        = map (\<lambda>i. v ! i) (filter (\<lambda>i. x \<in> set (v ! i)) [0..<length v])"
    by (simp add: filter_map comp_def)
  then have "holder_count v x = length (filter (\<lambda>i. x \<in> set (v ! i)) [0..<length v])"
    unfolding holder_count_def by (simp add: map_nth)
  then show ?thesis by (simp only: tcon_length)
qed

lemma holders_absent: "x \<notin> set (concat v) \<Longrightarrow> holders v x = {}"
  by (auto simp: holders_def)

lemma covered_schedulable:
  assumes "covered v ord" "connected v" "v \<noteq> []"
  shows "schedulable v ord"
proof -
  have "card (holders v x) \<le> 2 \<and> (card (holders v x) = 2 \<longrightarrow> x \<in> set ord)" for x
  proof (cases "x \<in> set (concat v)")
    case True
    with assms(1) show ?thesis unfolding covered_def holder_count_card by blast
  next
    case False
    then show ?thesis by (simp add: holders_absent)
  qed
  with assms(2,3) show ?thesis unfolding schedulable_def by blast
qed

lemma validated_lengths:
  assumes "do_check_indices B L v ord forder = Inr True"
  shows "length L = length v"
  using assms by (auto simp: do_check_indices_def split: if_splits)

lemma repairs_lengths:
  "rtranclp (repair_step B) s s' \<Longrightarrow> length (tensors s) = length (legs s) \<Longrightarrow>
   length (tensors s') = length (legs s') \<and> length (legs s') = length (legs s)"
proof (induction rule: rtranclp_induct)
  case base
  then show ?case by simp
next
  case (step y z)
  from step.hyps(2) have "length (tensors z) = length (tensors y) \<and> length (legs z) = length (legs y)"
    by cases simp
  with step.IH [OF step.prems] show ?case by simp
qed

lemma connect_graph_nonempty:
  assumes "connect_graph B pick s = Inr s'"
  shows "tensors s \<noteq> []"
proof
  assume "tensors s = []"
  then have "components_loop pick (legs s) [0..<length (tensors s)] [] [] = Inr []"
    by (simp add: components_loop.simps)
  with assms show False by (simp add: connect_graph_def)
qed

lemma iteration_icon_shape:
  assumes "iteration B listing s idx = Inr s'"
  shows "\<exists>tcon icon. get_tcon (legs s) idx = Inr tcon \<and>
           (length tcon = 1 \<longrightarrow> icon = [idx]) \<and>
           (length tcon \<noteq> 1 \<longrightarrow>
              (\<exists>a b. tcon = [a, b] \<and> set icon = set (legs s ! a) \<inter> set (legs s ! b))) \<and>
           idx \<in> set icon \<and> corder s' = renew_order (corder s) icon"
proof -
  let ?v = "legs s"
  from assms obtain tcon icon where
    tcon: "get_tcon ?v idx = Inr tcon" and
    icon: "(if length tcon = 1 then Inr [idx] else get_icon listing ?v tcon) = Inr icon" and
    ord: "corder s' = renew_order (corder s) icon"
    by (rule iteration_parts)
  have one: "icon = [idx]" if "length tcon = 1"
    using icon that by simp
  have two: "\<exists>a b. tcon = [a, b] \<and> set icon = set (?v ! a) \<inter> set (?v ! b)" if ne: "length tcon \<noteq> 1"
  proof -
    from get_tcon_mem(2) [OF tcon] ne have "length tcon = 2" by simp
    then obtain a b where ab: "tcon = [a, b]" using length_two by blast
    have "a \<in> set tcon" "b \<in> set tcon" using ab by simp_all
    then have al: "a < length ?v" "b < length ?v" unfolding get_tcon_set [OF tcon] by simp_all
    from icon ne have "get_icon listing ?v tcon = Inr icon" by simp
    then have "icon = set_to_list listing (filter (\<lambda>x. x \<in> set (?v ! b)) (?v ! a))"
      using ab al by (simp add: get_icon_def py_nth_def)
    then have "set icon = set (?v ! a) \<inter> set (?v ! b)" by auto
    with ab show ?thesis by blast
  qed
  have mem: "idx \<in> set icon"
  proof (cases "length tcon = 1")
    case True
    with one show ?thesis by simp
  next
    case False
    with icon have "get_icon listing ?v tcon = Inr icon" by simp
    from get_icon_mem [OF tcon False this] show ?thesis .
  qed
  from tcon one two mem ord show ?thesis by blast
qed

text \<open>
  A repair step whose new label occurs in no leg list keeps the condition that
  every label is carried by at most two leg lists and a label carried by two is
  listed in \<open>order\<close>: the new label is carried by exactly the two extended leg
  lists, and every other label by the leg lists that carried it before.
\<close>

lemma repair_step_holders:
  assumes st: "repair_step B y z"
  obtains c d k where "c < length (legs y)" "d < length (legs y)" "c \<noteq> d"
    "IntL k \<notin> set (corder y)" "corder z = corder y @ [IntL k]"
    "length (legs z) = length (legs y)"
    "\<And>i. i < length (legs y) \<Longrightarrow>
       set (legs z ! i) = (if i = c \<or> i = d then insert (IntL k) (set (legs y ! i)) else set (legs y ! i))"
  using st
proof cases
  case (1 c d A_c A_d k)
  have n: "set (legs z ! i) = (if i = c \<or> i = d then insert (IntL k) (set (legs y ! i)) else set (legs y ! i))"
    if "i < length (legs y)" for i
  proof (cases "i = d")
    case True
    with that show ?thesis unfolding 1(1) by simp
  next
    case False
    show ?thesis
    proof (cases "i = c")
      case True
      with that False show ?thesis unfolding 1(1) by simp
    next
      case nc: False
      with False show ?thesis unfolding 1(1) by simp
    qed
  qed
  show ?thesis
    by (rule that [of c d k]) (use 1 n in simp_all)
qed

lemma labels_nth: "x \<in> set (concat v) \<longleftrightarrow> (\<exists>i<length v. x \<in> set (v ! i))"
proof -
  have "x \<in> set (concat v) \<longleftrightarrow> (\<exists>xs\<in>set v. x \<in> set xs)" by simp
  also have "\<dots> \<longleftrightarrow> (\<exists>i<length v. x \<in> set (v ! i))"
    by (metis in_set_conv_nth)
  finally show ?thesis .
qed

lemma repair_step_covered:
  assumes st: "repair_step B y z" and cov: "covered (legs y) (corder y)"
    and fresh: "last (corder z) \<notin> set (concat (legs y))"
  shows "covered (legs z) (corder z) \<and>
         set (concat (legs z)) \<subseteq> set (concat (legs y)) \<union> set (corder z)"
  using st
proof (rule repair_step_holders)
  fix c d k
  assume r: "c < length (legs y)" "d < length (legs y)" "c \<noteq> d"
    and r4: "corder z = corder y @ [IntL k]" and r5: "length (legs z) = length (legs y)"
    and n: "\<And>i. i < length (legs y) \<Longrightarrow>
       set (legs z ! i) = (if i = c \<or> i = d then insert (IntL k) (set (legs y ! i)) else set (legs y ! i))"
  from fresh r4 have kf: "IntL k \<notin> set (concat (legs y))" by simp
  then have kn: "IntL k \<notin> set (legs y ! i)" if "i < length (legs y)" for i
    using that unfolding labels_nth by blast
  have hk: "holders (legs z) (IntL k) = {c, d}"
    using r r5 n kn by (auto simp: holders_def split: if_splits)
  have hx: "holders (legs z) x = holders (legs y) x" if "x \<noteq> IntL k" for x
    using r5 n that by (auto simp: holders_def split: if_splits)
  have sub: "set (concat (legs z)) \<subseteq> set (concat (legs y)) \<union> set (corder z)"
  proof
    fix x assume "x \<in> set (concat (legs z))"
    then obtain i where i: "i < length (legs y)" "x \<in> set (legs z ! i)"
      unfolding labels_nth r5 by blast
    from n [OF i(1)] i(2) have "x = IntL k \<or> x \<in> set (legs y ! i)"
      by (auto split: if_splits)
    with i(1) have "x = IntL k \<or> x \<in> set (concat (legs y))"
      unfolding labels_nth by blast
    with r4 show "x \<in> set (concat (legs y)) \<union> set (corder z)" by auto
  qed
  have "covered (legs z) (corder z)"
    unfolding covered_def holder_count_card
  proof
    fix x assume "x \<in> set (concat (legs z))"
    show "card (holders (legs z) x) \<le> 2 \<and> (card (holders (legs z) x) = 2 \<longrightarrow> x \<in> set (corder z))"
    proof (cases "x = IntL k")
      case True
      with hk r r4 show ?thesis by simp
    next
      case False
      have c0: "card (holders (legs y) x) \<le> 2 \<and> (card (holders (legs y) x) = 2 \<longrightarrow> x \<in> set (corder y))"
      proof (cases "x \<in> set (concat (legs y))")
        case True
        with cov show ?thesis unfolding covered_def holder_count_card by blast
      next
        case nx: False
        then show ?thesis by (simp add: holders_absent)
      qed
      with hx [OF False] r4 show ?thesis by simp
    qed
  qed
  with sub show ?thesis by simp
qed

lemma repair_step_order: "repair_step B y z \<Longrightarrow> \<exists>x. corder z = corder y @ [x] \<and> x \<notin> set (corder y)"
  by (erule repair_step.cases) simp

lemma repairs_covered:
  assumes "rtranclp (repair_step B) s s'" and cov: "covered (legs s) (corder s)"
  shows "(\<forall>x\<in>set (corder s'). x \<in> set (corder s) \<or> x \<notin> set (concat (legs s))) \<longrightarrow>
           covered (legs s') (corder s') \<and>
           set (concat (legs s')) \<subseteq> set (concat (legs s)) \<union> set (corder s')"
    and "set (corder s) \<subseteq> set (corder s')"
  using assms(1)
proof (induction rule: rtranclp_induct)
  case base
  { case 1 from cov show ?case by simp }
  { case 2 show ?case by simp }
next
  case (step y z)
  from repair_step_order [OF step.hyps(2)] obtain k where
    k: "corder z = corder y @ [k]" "k \<notin> set (corder y)" by blast
  { case 1
    show ?case
    proof
      assume h: "\<forall>x\<in>set (corder z). x \<in> set (corder s) \<or> x \<notin> set (concat (legs s))"
      with k(1) have "\<forall>x\<in>set (corder y). x \<in> set (corder s) \<or> x \<notin> set (concat (legs s))"
        by simp
      with step.IH(1) have cy: "covered (legs y) (corder y)"
        and ly: "set (concat (legs y)) \<subseteq> set (concat (legs s)) \<union> set (corder y)" by simp_all
      from h k(1) have "k \<in> set (corder s) \<or> k \<notin> set (concat (legs s))" by simp
      with k(2) step.IH(2) have "k \<notin> set (concat (legs s))" by auto
      with ly k(2) have "k \<notin> set (concat (legs y))" by auto
      then have fr: "last (corder z) \<notin> set (concat (legs y))" using k(1) by simp
      from repair_step_covered [OF step.hyps(2) cy fr]
      have cz: "covered (legs z) (corder z)"
        and lz: "set (concat (legs z)) \<subseteq> set (concat (legs y)) \<union> set (corder z)"
        by (rule conjunct1, rule conjunct2)
      have "set (corder y) \<subseteq> set (corder z)" using k(1) by auto
      with lz ly have "set (concat (legs z)) \<subseteq> set (concat (legs s)) \<union> set (corder z)"
        by blast
      with cz show "covered (legs z) (corder z) \<and>
           set (concat (legs z)) \<subseteq> set (concat (legs s)) \<union> set (corder z)" ..
    qed }
  { case 2
    from step.IH(2) k(1) show ?case by auto }
qed


lemma connect_graph_covered:
  assumes cg: "connect_graph B pick s = Inr s0"
    and cov: "covered (legs s) (corder s)"
    and fresh: "\<forall>x\<in>set (corder s0). x \<in> set (corder s) \<or> x \<notin> set (concat (legs s))"
  shows "covered (legs s0) (corder s0)"
  using repairs_covered(1) [OF connect_graph_repairs [OF cg] cov] fresh by simp

text \<open>
  C2, as the code has it. In every iteration that does not raise, the
  contracted labels \<open>icon\<close> (\<open>[order[0]]\<close> for a self-trace, the labels shared by
  the two participants otherwise) contain \<open>order[0]\<close>, so \<open>renew_order\<close> makes
  \<open>order\<close> strictly shorter: the loop terminates (\<open>ncon_loop\<close> is a total
  function, by the measure \<open>len(order)\<close>). For an input \<open>(L, v, order, forder)\<close>
  that passes validation, in which every label is carried by at most two leg
  lists of \<open>v\<close> and a label carried by two is listed in \<open>order\<close>, and for which
  connectivity repair returns without having inserted a label that already
  occurs in \<open>v\<close>, the loop ends by raising or exits with an empty \<open>order\<close> and
  exactly one tensor. Inputs for which the repair inserts a label that already
  occurs in \<open>v\<close> are left out of the statement; \<open>repair_label_collision\<close> below
  runs one.
\<close>

theorem scheduler_terminates:
  "(iteration B listing s idx = Inr s1 \<longrightarrow>
      (\<exists>tcon icon. get_tcon (legs s) idx = Inr tcon \<and>
         (length tcon = 1 \<longrightarrow> icon = [idx]) \<and>
         (length tcon \<noteq> 1 \<longrightarrow>
            (\<exists>a b. tcon = [a, b] \<and> set icon = set (legs s ! a) \<inter> set (legs s ! b))) \<and>
         idx \<in> set icon \<and> corder s1 = renew_order (corder s) icon) \<and>
      (idx \<in> set (corder s) \<longrightarrow> length (corder s1) < length (corder s))) \<and>
   (do_check_indices B L v ord forder = Inr True \<and> covered v ord \<and>
    connect_graph B pick \<lparr>tensors = L, legs = v, corder = ord, calls = []\<rparr> = Inr s0 \<and>
    (\<forall>x\<in>set (corder s0). x \<in> set ord \<or> x \<notin> set (concat v)) \<longrightarrow>
      (\<exists>f. ncon_loop B listing s0 = Inl f) \<or>
      (\<exists>s'. ncon_loop B listing s0 = Inr s' \<and> corder s' = [] \<and> length (tensors s') = 1 \<and>
            length (legs s') = 1))"
proof (intro conjI impI)
  assume "iteration B listing s idx = Inr s1"
  then show "\<exists>tcon icon. get_tcon (legs s) idx = Inr tcon \<and>
         (length tcon = 1 \<longrightarrow> icon = [idx]) \<and>
         (length tcon \<noteq> 1 \<longrightarrow>
            (\<exists>a b. tcon = [a, b] \<and> set icon = set (legs s ! a) \<inter> set (legs s ! b))) \<and>
         idx \<in> set icon \<and> corder s1 = renew_order (corder s) icon"
    by (rule iteration_icon_shape)
next
  assume "iteration B listing s idx = Inr s1" "idx \<in> set (corder s)"
  then show "length (corder s1) < length (corder s)" by (rule iteration_shrinks)
next
  let ?s = "\<lparr>tensors = L, legs = v, corder = ord, calls = []\<rparr>"
  assume h: "do_check_indices B L v ord forder = Inr True \<and> covered v ord \<and>
    connect_graph B pick ?s = Inr s0 \<and>
    (\<forall>x\<in>set (corder s0). x \<in> set ord \<or> x \<notin> set (concat v))"
  then have chk: "do_check_indices B L v ord forder = Inr True"
    and cg: "connect_graph B pick ?s = Inr s0" and cov0: "covered (legs ?s) (corder ?s)"
    and fresh: "\<forall>x\<in>set (corder s0). x \<in> set (corder ?s) \<or> x \<notin> set (concat (legs ?s))"
    by simp_all
  from connect_graph_covered [OF cg cov0 fresh] have cov: "covered (legs s0) (corder s0)" .
  from validated_lengths [OF chk] have len: "length (tensors ?s) = length (legs ?s)" by simp
  from connect_graph_connected [OF len cg] have con: "connected (legs s0)" .
  from repairs_lengths [OF connect_graph_repairs [OF cg] len] have
    len0: "length (tensors s0) = length (legs s0)" and same: "length (legs s0) = length (legs ?s)"
    by simp_all
  from connect_graph_nonempty [OF cg] len same have ne: "legs s0 \<noteq> []" by auto
  from covered_schedulable [OF cov con ne] have sch: "schedulable (legs s0) (corder s0)" .
  show "(\<exists>f. ncon_loop B listing s0 = Inl f) \<or>
      (\<exists>s'. ncon_loop B listing s0 = Inr s' \<and> corder s' = [] \<and> length (tensors s') = 1 \<and>
            length (legs s') = 1)"
  proof (cases "ncon_loop B listing s0")
    case (Inl f)
    then show ?thesis by blast
  next
    case (Inr s')
    from ncon_loop_exit [OF Inr sch len0] Inr show ?thesis by blast
  qed
qed

theorem scheduler_terminates_witness:
  "iteration shape_backend id net_linked (IntL 1) = Inr net_step \<and>
   length (corder net_step) < length (corder net_linked) \<and>
   do_check_indices shape_backend (tensors net_apart) (legs net_apart) (corder net_apart)
      [IntL (-1), IntL (-2), IntL (-3), IntL (-4), IntL (-5)] = Inr True \<and>
   covered (legs net_apart) (corder net_apart) \<and>
   connect_graph shape_backend hd net_apart = Inr net_linked \<and>
   list_all (\<lambda>x. x \<notin> set (concat (legs net_apart))) (corder net_linked) \<and>
   ncon_loop shape_backend id net_linked = Inr net_done \<and>
   corder net_done = [] \<and> length (tensors net_done) = 1"
proof -
  note a = scheduler_terminates [of shape_backend id net_linked "IntL 1" net_step
      "[[2, 3], [4, 5], [6]]" "[[IntL (-1), IntL (-2)], [IntL (-3), IntL (-4)], [IntL (-5)]]" "[]"
      "[IntL (-1), IntL (-2), IntL (-3), IntL (-4), IntL (-5)]" hd net_linked]
  have cov: "covered [[IntL (-1), IntL (-2)], [IntL (-3), IntL (-4)], [IntL (-5)]] []"
    by (simp add: covered_def holder_count_def)
  have fresh: "\<forall>x\<in>set (corder net_linked). x \<in> set [] \<or>
      x \<notin> set (concat [[IntL (-1), IntL (-2)], [IntL (-3), IntL (-4)], [IntL (-5)]])"
    by (simp add: net_linked_def)
  have mem: "IntL 1 \<in> set (corder net_linked)" by (simp add: net_linked_def)
  have rep: "connect_graph shape_backend hd
      \<lparr>tensors = [[2, 3], [4, 5], [6]],
        legs = [[IntL (-1), IntL (-2)], [IntL (-3), IntL (-4)], [IntL (-5)]],
        corder = [], calls = []\<rparr> = Inr net_linked"
    using run_repair by (simp add: net_apart_def)
  from a run_step mem have sh: "length (corder net_step) < length (corder net_linked)" by simp
  from a run_check rep cov fresh run_loop
  have ex: "corder net_done = [] \<and> length (tensors net_done) = 1" by simp
  have chk: "do_check_indices shape_backend (tensors net_apart) (legs net_apart) (corder net_apart)
      [IntL (-1), IntL (-2), IntL (-3), IntL (-4), IntL (-5)] = Inr True"
    using run_check by (simp add: net_apart_def)
  have cov': "covered (legs net_apart) (corder net_apart)"
    using cov by (simp add: net_apart_def)
  have fresh': "list_all (\<lambda>x. x \<notin> set (concat (legs net_apart))) (corder net_linked)"
    by (simp add: net_apart_def net_linked_def)
  from sh ex chk cov' fresh' run_step run_repair run_loop show ?thesis by simp
qed

text \<open>
  Without the condition on the labels of the input the exit state can hold more
  than one tensor: the label \<open>7\<close> below is carried by three leg lists and listed
  nowhere; validation passes, the graph is connected so the repair changes
  nothing, and the loop exits with two tensors.
\<close>

theorem scheduler_exit_counterexample:
  "do_check_indices shape_backend [[2, 2], [2, 2], [2]]
      [[IntL 1, IntL 7], [IntL 1, IntL 7], [IntL 7]] [IntL 1] [] = Inr True \<and>
   connect_graph shape_backend hd
      \<lparr>tensors = [[2, 2], [2, 2], [2]], legs = [[IntL 1, IntL 7], [IntL 1, IntL 7], [IntL 7]],
        corder = [IntL 1], calls = []\<rparr>
     = Inr \<lparr>tensors = [[2, 2], [2, 2], [2]], legs = [[IntL 1, IntL 7], [IntL 1, IntL 7], [IntL 7]],
        corder = [IntL 1], calls = []\<rparr> \<and>
   ncon_loop shape_backend id
      \<lparr>tensors = [[2, 2], [2, 2], [2]], legs = [[IntL 1, IntL 7], [IntL 1, IntL 7], [IntL 7]],
        corder = [IntL 1], calls = []\<rparr>
     = Inr \<lparr>tensors = [[2], []], legs = [[IntL 7], []], corder = [],
        calls = [ConCall [2, 2] [2, 2] [0, 1] [0, 1]]\<rparr> \<and>
   length (tensors \<lparr>tensors = [[2], []], legs = [[IntL 7], []], corder = [],
        calls = [ConCall [2, 2] [2, 2] [0, 1] [0, 1]]\<rparr>) \<noteq> 1"
  by code_simp

text \<open>
  The label inserted by \<open>connect_graph\<close> is the least positive integer that is
  not in \<open>order\<close> (\<open>dim_num = 1; while dim_num in order: dim_num += 1\<close>); it is
  not compared with the labels of the leg lists. When a free label of the input
  is that integer the inserted label is not new: below, \<open>order = [5]\<close> and the
  free labels are \<open>1, 2, 3\<close>; validation passes, every label is carried by at
  most two leg lists and the one carried by two is in \<open>order\<close>; the repair links
  the components \<open>{0, 1}\<close> and \<open>{2}\<close> with the label \<open>1\<close>, which the second leg list
  already carries as a free label. The first iteration then contracts \<open>5\<close> and
  \<open>1\<close> together between the first two tensors, the loop exits with two tensors
  (the trivial legs were to be contracted last, joining the components), and
  \<open>ncon\<close> raises \<open>ValueError\<close> in \<open>permute_final\<close>, where the free label \<open>2\<close> is
  absent from the leg list \<open>[3, 1]\<close> of the first remaining tensor.
\<close>

lemma repair_label_collision:
  "do_check_indices shape_backend [[2, 3], [2, 1], [4]]
      [[IntL 5, IntL 2], [IntL 5, IntL 1], [IntL 3]] [IntL 5] [IntL 1, IntL 2, IntL 3] = Inr True \<and>
   covered [[IntL 5, IntL 2], [IntL 5, IntL 1], [IntL 3]] [IntL 5] \<and>
   connect_graph shape_backend hd
      \<lparr>tensors = [[2, 3], [2, 1], [4]], legs = [[IntL 5, IntL 2], [IntL 5, IntL 1], [IntL 3]],
        corder = [IntL 5], calls = []\<rparr>
     = Inr \<lparr>tensors = [[2, 3, 1], [2, 1], [4, 1]],
        legs = [[IntL 5, IntL 2, IntL 1], [IntL 5, IntL 1], [IntL 3, IntL 1]],
        corder = [IntL 5, IntL 1], calls = [ExpandCall [4] 1, ExpandCall [2, 3] 2]\<rparr> \<and>
   ncon_loop shape_backend id
      \<lparr>tensors = [[2, 3, 1], [2, 1], [4, 1]],
        legs = [[IntL 5, IntL 2, IntL 1], [IntL 5, IntL 1], [IntL 3, IntL 1]],
        corder = [IntL 5, IntL 1], calls = [ExpandCall [4] 1, ExpandCall [2, 3] 2]\<rparr>
     = Inr \<lparr>tensors = [[4, 1], [3]], legs = [[IntL 3, IntL 1], [IntL 2]], corder = [],
        calls = [ExpandCall [4] 1, ExpandCall [2, 3] 2, ConCall [2, 3, 1] [2, 1] [0, 2] [0, 1]]\<rparr> \<and>
   ncon shape_backend hd id (TensorList [[2, 3], [2, 1], [4]])
      (NestedIndices [[IntL 5, IntL 2], [IntL 5, IntL 1], [IntL 3]])
      (Given [IntL 5]) (Given [IntL 1, IntL 2, IntL 3]) True
     = Inl (ValueError,
        [ExpandCall [4] 1, ExpandCall [2, 3] 2, ConCall [2, 3, 1] [2, 1] [0, 2] [0, 1]])"
  by code_simp

end
